theory Spec2Isabelle
  imports Main "HOL-Library.Word" "HOL-Library.List_Lexorder"
begin

section \<open>The ordered store underneath BoltDB\<close>

text \<open>
  The engine \<^verbatim>\<open>BoltDB\<close> of the package \<^verbatim>\<open>db\<close> sits on the bbolt library. Only the part
  of bbolt that the engine calls is modelled here, at the level of its documented contract:
  a file holds root buckets by name, a bucket is a finite map from byte keys to byte
  values kept in ascending lexicographic key order (the order of \<^verbatim>\<open>bytes.Compare\<close>),
  a write transaction works on a private copy that replaces the file's contents only
  when the commit succeeds, and a cursor walks the entries in key order.

  Byte slices are lists of 8-bit words. The order on lists imported from
  \<open>List_Lexorder\<close> is the lexicographic one, a proper prefix being smaller.
\<close>

type_synonym bytes = "8 word list"
type_synonym entry = "bytes \<times> bytes"
type_synonym bucket = "entry list"

text \<open>
  The root buckets of a transaction (or of the committed file). Go converts between
  \<^verbatim>\<open>string\<close> and \<^verbatim>\<open>[]byte\<close> names without changing the bytes; both are names here.
\<close>

type_synonym tx = "string \<Rightarrow> bucket option"

text \<open>Error numbers of the operating system that a commit can fail with.\<close>

datatype errno = ENOSPC | EIO

text \<open>
  Modelled from the spec: the error values \<^verbatim>\<open>ErrNotExist\<close>, \<^verbatim>\<open>ErrBucketNotExist\<close> and \<^verbatim>\<open>ErrIO\<close>
  of the package are declared outside the source files; they are the error kinds
  NotExist, BucketNotExist and IO of the spec, each distinct from the others.
  \<^verbatim>\<open>ErrDBNotStarted\<close> is declared in the source, the errors from \<^verbatim>\<open>ErrBucketNotFound\<close> to
  \<^verbatim>\<open>ErrValueTooLarge\<close> are bbolt's, \<^verbatim>\<open>ErrEntryIndex\<close> is the error of a batch asked for an
  entry it does not have, and \<open>Sys\<close> carries an error number of the operating system.

  Errors are identified by their cause: \<^verbatim>\<open>errors.Wrap(e, msg)\<close> and \<^verbatim>\<open>errors.Wrapf\<close>
  add a message and keep \<^verbatim>\<open>errors.Cause\<close> and \<^verbatim>\<open>errors.Is\<close> as they are for \<^verbatim>\<open>e\<close>, so a
  wrapped error is modelled by the error it wraps.
\<close>

datatype error =
    ErrDBNotStarted
  | ErrNotExist
  | ErrBucketNotExist
  | ErrIO
  | ErrBucketNotFound
  | ErrBucketNameRequired
  | ErrIncompatibleValue
  | ErrKeyRequired
  | ErrKeyTooLarge
  | ErrValueTooLarge
  | ErrEntryIndex
  | Sys errno

definition MaxKeySize :: nat where
  "MaxKeySize = 32768"

definition MaxValueSize :: nat where
  "MaxValueSize = 2147483646"

text \<open>\<^verbatim>\<open>Bucket.Get\<close>: the value stored under the key, if any.\<close>

definition bucket_Get :: "bucket \<Rightarrow> bytes \<Rightarrow> bytes option" where
  "bucket_Get bkt key = map_of bkt key"

text \<open>Writing one entry at its place in key order, replacing an entry with the same key.\<close>

fun upsert :: "bucket \<Rightarrow> bytes \<Rightarrow> bytes \<Rightarrow> bucket" where
  "upsert [] key val = [(key, val)]"
| "upsert ((k, v) # rest) key val =
     (if key < k then (key, val) # (k, v) # rest
      else if key = k then (key, val) # rest
      else (k, v) # upsert rest key val)"

text \<open>
  \<^verbatim>\<open>Bucket.Put\<close> rejects an empty key, a key longer than \<^verbatim>\<open>MaxKeySize\<close> and a value
  longer than \<^verbatim>\<open>MaxValueSize\<close>, in this order.
\<close>

definition bucket_Put :: "bucket \<Rightarrow> bytes \<Rightarrow> bytes \<Rightarrow> error + bucket" where
  "bucket_Put bkt key val =
     (if key = [] then Inl ErrKeyRequired
      else if MaxKeySize < length key then Inl ErrKeyTooLarge
      else if MaxValueSize < length val then Inl ErrValueTooLarge
      else Inr (upsert bkt key val))"

text \<open>\<^verbatim>\<open>Bucket.Delete\<close>: removing a key that is not stored is no error.\<close>

definition bucket_Delete :: "bucket \<Rightarrow> bytes \<Rightarrow> error + bucket" where
  "bucket_Delete bkt key = Inr (filter (\<lambda>e. fst e \<noteq> key) bkt)"

text \<open>
  \<^verbatim>\<open>Tx.Bucket\<close>, \<^verbatim>\<open>Tx.CreateBucketIfNotExists\<close> and \<^verbatim>\<open>Tx.DeleteBucket\<close>. For the empty name
  \<^verbatim>\<open>DeleteBucket\<close> compares the name with the key its cursor yields: on a file without
  buckets the cursor yields \<^verbatim>\<open>nil\<close>, which equals the empty name, and the entry not being a
  bucket the answer is \<^verbatim>\<open>ErrIncompatibleValue\<close>; on a file with buckets the first name
  differs from the empty one and the answer is \<^verbatim>\<open>ErrBucketNotFound\<close>.
\<close>

definition Bucket :: "tx \<Rightarrow> string \<Rightarrow> bucket option" where
  "Bucket t name = t name"

definition CreateBucketIfNotExists :: "tx \<Rightarrow> string \<Rightarrow> error + (tx \<times> bucket)" where
  "CreateBucketIfNotExists t name =
     (if name = [] then Inl ErrBucketNameRequired
      else (case t name of
              Some bkt \<Rightarrow> Inr (t, bkt)
            | None \<Rightarrow> Inr (t(name \<mapsto> []), [])))"

definition DeleteBucket :: "tx \<Rightarrow> string \<Rightarrow> error + tx" where
  "DeleteBucket t name =
     (if name = []
      then (if dom t = {} then Inl ErrIncompatibleValue else Inl ErrBucketNotFound)
      else (case t name of
              None \<Rightarrow> Inl ErrBucketNotFound
            | Some bkt \<Rightarrow> Inr (t(name := None))))"

subsection \<open>Cursors\<close>

text \<open>
  A cursor is positioned on the pages of the bucket as they were when it was placed;
  writes made through the bucket later in the same transaction go to in-memory copies
  that an already positioned cursor does not consult. The cursor is therefore the list
  of entries at its creation together with an index into it; the index equal to the
  length is the position after the last entry.
\<close>

record cursor =
  snap :: bucket
  idx :: nat

definition Cursor :: "bucket \<Rightarrow> cursor" where
  "Cursor bkt = \<lparr>snap = bkt, idx = 0\<rparr>"

definition at_idx :: "bucket \<Rightarrow> nat \<Rightarrow> entry option" where
  "at_idx bkt i = (if i < length bkt then Some (bkt ! i) else None)"

text \<open>\<^verbatim>\<open>Cursor.First\<close>: the first entry, nothing for an empty bucket.\<close>

definition First :: "cursor \<Rightarrow> cursor \<times> entry option" where
  "First c = (c\<lparr>idx := 0\<rparr>, at_idx (snap c) 0)"

text \<open>\<^verbatim>\<open>Cursor.Seek\<close>: the first entry whose key is not below the sought one.\<close>

definition Seek :: "cursor \<Rightarrow> bytes \<Rightarrow> cursor \<times> entry option" where
  "Seek c key =
     (let i = length (takeWhile (\<lambda>e. fst e < key) (snap c))
      in (c\<lparr>idx := i\<rparr>, at_idx (snap c) i))"

text \<open>
  \<^verbatim>\<open>Cursor.Next\<close>: moves on when an entry follows and otherwise stays and yields nothing.
\<close>

definition Next :: "cursor \<Rightarrow> cursor \<times> entry option" where
  "Next c =
     (if idx c + 1 < length (snap c)
      then (c\<lparr>idx := idx c + 1\<rparr>, at_idx (snap c) (idx c + 1))
      else (c, None))"

text \<open>
  \<^verbatim>\<open>Cursor.Prev\<close>: moves back when an entry precedes; from the position after the last
  entry this is the last entry. At the first entry it yields nothing.
\<close>

definition Prev :: "cursor \<Rightarrow> cursor \<times> entry option" where
  "Prev c =
     (if 0 < idx c
      then (c\<lparr>idx := idx c - 1\<rparr>, at_idx (snap c) (idx c - 1))
      else (c, None))"

section \<open>The engine\<close>

text \<open>
  \<open>ready\<close> is the embedded \<^verbatim>\<open>lifecycle.Readiness\<close>, \<open>NumRetries\<close> the field of that
  name of the configuration (a \<^verbatim>\<open>uint8\<close>), \<open>db\<close> the committed contents of the bolt
  file. \<open>pending\<close> is the environment: what the operating system will answer to the
  commits to come, in order, \<open>None\<close> for a commit that goes through; once the list is
  used up every commit goes through.
\<close>

record BoltDB =
  ready :: bool
  NumRetries :: "8 word"
  db :: tx
  pending :: "errno option list"

definition IsReady :: "BoltDB \<Rightarrow> bool" where
  "IsReady b = ready b"

text \<open>\<^verbatim>\<open>DB.View\<close> runs the function on the committed contents.\<close>

definition View :: "(tx \<Rightarrow> error + 'a) \<Rightarrow> BoltDB \<Rightarrow> error + 'a" where
  "View fn b = fn (db b)"

subsection \<open>Get\<close>

definition Get_tx :: "string \<Rightarrow> bytes \<Rightarrow> tx \<Rightarrow> error + bytes" where
  "Get_tx namespace key t =
     (case Bucket t namespace of
        None \<Rightarrow> Inl ErrNotExist
      | Some bkt \<Rightarrow>
          (case bucket_Get bkt key of
             None \<Rightarrow> Inl ErrNotExist
           | Some v \<Rightarrow> Inr v))"

definition Get :: "BoltDB \<Rightarrow> string \<Rightarrow> bytes \<Rightarrow> error + bytes" where
  "Get b namespace key =
     (if \<not> IsReady b then Inl ErrDBNotStarted
      else (case View (Get_tx namespace key) b of
              Inr val \<Rightarrow> Inr val
            | Inl err \<Rightarrow> if err = ErrNotExist then Inl err else Inl ErrIO))"

subsection \<open>Write transactions, retries and escalation\<close>

text \<open>
  \<^verbatim>\<open>DB.Update\<close> runs the function on a private copy of the committed contents. When
  the function fails the copy is dropped and its error returned; otherwise the commit
  asks the operating system, which lets it through (the copy becomes the contents) or
  fails it with an error number (the copy is dropped).
\<close>

definition Update :: "(tx \<Rightarrow> error + tx) \<Rightarrow> BoltDB \<Rightarrow> error option \<times> BoltDB" where
  "Update fn b =
     (case fn (db b) of
        Inl e \<Rightarrow> (Some e, b)
      | Inr t \<Rightarrow>
          (case pending b of
             [] \<Rightarrow> (None, b\<lparr>db := t\<rparr>)
           | None # rest \<Rightarrow> (None, b\<lparr>db := t, pending := rest\<rparr>)
           | Some en # rest \<Rightarrow> (Some (Sys en), b\<lparr>pending := rest\<rparr>)))"

text \<open>
  The loop \<^verbatim>\<open>for c := uint8(0); c < NumRetries; c++ { if err = Update(fn); err == nil { break } }\<close>
  that every mutating operation has; the first argument counts the iterations left,
  the third is \<^verbatim>\<open>err\<close> as it stands.
\<close>

fun retry :: "nat \<Rightarrow> (tx \<Rightarrow> error + tx) \<Rightarrow> error option \<Rightarrow> BoltDB \<Rightarrow> error option \<times> BoltDB" where
  "retry 0 fn err b = (err, b)"
| "retry (Suc n) fn err b =
     (case Update fn b of
        (None, b') \<Rightarrow> (None, b')
      | (Some e, b') \<Rightarrow> retry n fn (Some e) b')"

text \<open>
  How a call ends: it returns, or \<^verbatim>\<open>log.L().Fatal\<close> ends the process.
\<close>

datatype 'a exit = Return 'a | Fatal

text \<open>
  After the loop: \<^verbatim>\<open>if err != nil { if errors.Is(err, syscall.ENOSPC) { log.L().Fatal(...) };
  err = errors.Wrap(ErrIO, err.Error()) }; return err\<close>.
\<close>

definition finish :: "error option \<Rightarrow> error option exit" where
  "finish err =
     (case err of
        None \<Rightarrow> Return None
      | Some e \<Rightarrow> if e = Sys ENOSPC then Fatal else Return (Some ErrIO))"

definition run_retries :: "BoltDB \<Rightarrow> (tx \<Rightarrow> error + tx) \<Rightarrow> error option exit \<times> BoltDB" where
  "run_retries b fn =
     (case retry (unat (NumRetries b)) fn None b of (err, b') \<Rightarrow> (finish err, b'))"

subsection \<open>Put and Delete\<close>

definition Put_tx :: "string \<Rightarrow> bytes \<Rightarrow> bytes \<Rightarrow> tx \<Rightarrow> error + tx" where
  "Put_tx namespace key val t =
     (case CreateBucketIfNotExists t namespace of
        Inl err \<Rightarrow> Inl err
      | Inr (t', bucket) \<Rightarrow>
          (case bucket_Put bucket key val of
             Inl err \<Rightarrow> Inl err
           | Inr bucket' \<Rightarrow> Inr (t'(namespace \<mapsto> bucket'))))"

definition Put :: "BoltDB \<Rightarrow> string \<Rightarrow> bytes \<Rightarrow> bytes \<Rightarrow> error option exit \<times> BoltDB" where
  "Put b namespace key val =
     (if \<not> IsReady b then (Return (Some ErrDBNotStarted), b)
      else run_retries b (Put_tx namespace key val))"

text \<open>The key \<^verbatim>\<open>nil\<close> is \<open>None\<close>: it deletes the whole bucket.\<close>

definition Delete_tx :: "string \<Rightarrow> bytes option \<Rightarrow> tx \<Rightarrow> error + tx" where
  "Delete_tx namespace key t =
     (case key of
        None \<Rightarrow>
          (case DeleteBucket t namespace of
             Inl err \<Rightarrow> if err \<noteq> ErrBucketNotFound then Inl err else Inr t
           | Inr t' \<Rightarrow> Inr t')
      | Some k \<Rightarrow>
          (case Bucket t namespace of
             None \<Rightarrow> Inr t
           | Some bucket \<Rightarrow>
               (case bucket_Delete bucket k of
                  Inl err \<Rightarrow> Inl err
                | Inr bucket' \<Rightarrow> Inr (t(namespace \<mapsto> bucket')))))"

definition Delete :: "BoltDB \<Rightarrow> string \<Rightarrow> bytes option \<Rightarrow> error option exit \<times> BoltDB" where
  "Delete b namespace key =
     (if \<not> IsReady b then (Return (Some ErrDBNotStarted), b)
      else run_retries b (Delete_tx namespace key))"

subsection \<open>Filter and Range\<close>

text \<open>
  The loop \<^verbatim>\<open>for ; k != nil; k, v = c.Next()\<close> of Filter, with the entry the cursor
  yielded last and the two result slices.
\<close>

function Filter_loop ::
  "(bytes \<Rightarrow> bytes \<Rightarrow> bool) \<Rightarrow> bool \<Rightarrow> bytes \<Rightarrow> cursor \<Rightarrow> entry option
     \<Rightarrow> bytes list \<Rightarrow> bytes list \<Rightarrow> bytes list \<times> bytes list" where
  "Filter_loop cond checkMax maxKey c kv fk fv =
     (case kv of
        None \<Rightarrow> (fk, fv)
      | Some (k, v) \<Rightarrow>
          if checkMax \<and> maxKey < k then (fk, fv)
          else if cond k v
               then Filter_loop cond checkMax maxKey (fst (Next c)) (snd (Next c))
                      (fk @ [k]) (fv @ [v])
               else Filter_loop cond checkMax maxKey (fst (Next c)) (snd (Next c)) fk fv)"
  by pat_completeness auto
termination
  by (relation "measure (\<lambda>(cond, checkMax, maxKey, c, kv, fk, fv).
         (length (snap c) - idx c) + (case kv of None \<Rightarrow> 0 | Some e \<Rightarrow> 1))")
     (auto simp: Next_def at_idx_def)

declare Filter_loop.simps [simp del]

definition Filter_tx ::
  "string \<Rightarrow> (bytes \<Rightarrow> bytes \<Rightarrow> bool) \<Rightarrow> bytes \<Rightarrow> bytes \<Rightarrow> tx
     \<Rightarrow> error + (bytes list \<times> bytes list)" where
  "Filter_tx namespace cond minKey maxKey t =
     (case Bucket t namespace of
        None \<Rightarrow> Inl ErrBucketNotExist
      | Some bucket \<Rightarrow>
          (let c = Cursor bucket;
               (c', kv) = (if 0 < length minKey then Seek c minKey else First c)
           in case kv of
                None \<Rightarrow> Inr ([], [])
              | Some e \<Rightarrow> Inr (Filter_loop cond (0 < length maxKey) maxKey c' kv [] [])))"

definition Filter ::
  "BoltDB \<Rightarrow> string \<Rightarrow> (bytes \<Rightarrow> bytes \<Rightarrow> bool) \<Rightarrow> bytes \<Rightarrow> bytes
     \<Rightarrow> error + (bytes list \<times> bytes list)" where
  "Filter b namespace cond minKey maxKey =
     (if \<not> IsReady b then Inl ErrDBNotStarted
      else (case View (Filter_tx namespace cond minKey maxKey) b of
              Inl err \<Rightarrow> Inl err
            | Inr (fk, fv) \<Rightarrow> if length fk = 0 then Inl ErrNotExist else Inr (fk, fv)))"

text \<open>
  Range first allocates the result, \<^verbatim>\<open>value := make([][]byte, count)\<close>. The runtime
  refuses a slice whose \<open>count\<close> headers of 24 bytes exceed what it can address
  (\<open>maxAlloc\<close>, \<open>2 ^ 48\<close> bytes on the 64-bit platforms) with the panic
  \<^verbatim>\<open>makeslice: len out of range\<close>, and ends the process when the memory at hand does not
  suffice. \<open>mem\<close>, the bytes the runtime can give to the slice, belongs to the
  environment and is an argument; either way the call does not return.
\<close>

datatype 'a run = Done 'a | Panic

definition maxAlloc :: nat where
  "maxAlloc = 2 ^ 48"

definition makeslice :: "nat \<Rightarrow> 64 word \<Rightarrow> bool" where
  "makeslice mem count = (24 * unat count \<le> maxAlloc \<and> 24 * unat count \<le> mem)"

text \<open>
  The loop \<^verbatim>\<open>for i := uint64(0); i < count; i++\<close> of Range; the third argument is
  \<^verbatim>\<open>count - i\<close>, the last the values copied so far.
\<close>

fun Range_loop :: "cursor \<Rightarrow> entry option \<Rightarrow> nat \<Rightarrow> bytes list \<Rightarrow> error + bytes list" where
  "Range_loop cur kv 0 vals = Inr vals"
| "Range_loop cur kv (Suc n) vals =
     (case kv of
        None \<Rightarrow> Inl ErrNotExist
      | Some (k, v) \<Rightarrow> Range_loop (fst (Next cur)) (snd (Next cur)) n (vals @ [v]))"

definition Range_tx :: "string \<Rightarrow> bytes \<Rightarrow> 64 word \<Rightarrow> tx \<Rightarrow> error + bytes list" where
  "Range_tx namespace key count t =
     (case Bucket t namespace of
        None \<Rightarrow> Inl ErrNotExist
      | Some bucket \<Rightarrow>
          (let (cur, kv) = Seek (Cursor bucket) key
           in case kv of
                None \<Rightarrow> Inl ErrNotExist
              | Some e \<Rightarrow> Range_loop cur kv (unat count) []))"

definition Range_kv ::
  "nat \<Rightarrow> BoltDB \<Rightarrow> string \<Rightarrow> bytes \<Rightarrow> 64 word \<Rightarrow> (error + bytes list) run" where
  "Range_kv mem b namespace key count =
     (if \<not> IsReady b then Done (Inl ErrDBNotStarted)
      else if \<not> makeslice mem count then Panic
      else (case View (Range_tx namespace key count) b of
              Inr vals \<Rightarrow> Done (Inr vals)
            | Inl err \<Rightarrow> if err = ErrNotExist then Done (Inl err) else Done (Inl ErrIO)))"

subsection \<open>WriteBatch\<close>

text \<open>
  Modelled from the spec: the package \<^verbatim>\<open>db/batch\<close> (\<^verbatim>\<open>KVStoreBatch\<close>, \<^verbatim>\<open>WriteInfo\<close>) is not
  among the source files. A write operation is a tagged variant, Put or Delete (or
  another tagged kind, if any), with its namespace, key and value; a batch is the
  sequence of its write operations in call order, \<open>Size\<close> its length and \<open>Entry i\<close> the
  operation at position \<open>i\<close>, an error outside the batch.
\<close>

datatype WriteType = BatchPut | BatchDelete | BatchOther

record WriteInfo =
  w_type :: WriteType
  w_namespace :: string
  w_key :: bytes
  w_value :: bytes

type_synonym KVStoreBatch = "WriteInfo list"

definition Size :: "KVStoreBatch \<Rightarrow> nat" where
  "Size kvsb = length kvsb"

definition Entry :: "KVStoreBatch \<Rightarrow> nat \<Rightarrow> error + WriteInfo" where
  "Entry kvsb i = (if i < length kvsb then Inr (kvsb ! i) else Inl ErrEntryIndex)"

text \<open>
  The loop \<^verbatim>\<open>for i := kvsb.Size() - 1; i >= 0; i--\<close> that removes duplicate keys; the
  second argument is \<^verbatim>\<open>i + 1\<close>. The key of \<^verbatim>\<open>entryKeySet\<close> is the pair of the namespace
  and the key.
\<close>

fun scan_entries ::
  "KVStoreBatch \<Rightarrow> nat \<Rightarrow> (string \<times> bytes) set \<Rightarrow> WriteInfo list \<Rightarrow> error + WriteInfo list" where
  "scan_entries kvsb 0 entryKeySet uniqEntries = Inr uniqEntries"
| "scan_entries kvsb (Suc i) entryKeySet uniqEntries =
     (case Entry kvsb i of
        Inl e \<Rightarrow> Inl e
      | Inr write \<Rightarrow>
          if w_type write \<noteq> BatchPut \<and> w_type write \<noteq> BatchDelete
          then scan_entries kvsb i entryKeySet uniqEntries
          else if (w_namespace write, w_key write) \<notin> entryKeySet
               then scan_entries kvsb i
                      (insert (w_namespace write, w_key write) entryKeySet)
                      (uniqEntries @ [write])
               else scan_entries kvsb i entryKeySet uniqEntries)"

text \<open>
  One write inside the transaction (the body of the \<^verbatim>\<open>switch\<close>). The fill percent a
  batch may carry for a namespace tunes how bbolt splits pages and changes no entry;
  it is left out, as are the lock WriteBatch holds on the batch and the two gauges it
  sets, which change nothing the call returns or stores.
\<close>

definition apply_write :: "WriteInfo \<Rightarrow> tx \<Rightarrow> error + tx" where
  "apply_write write t =
     (case w_type write of
        BatchPut \<Rightarrow>
          (case CreateBucketIfNotExists t (w_namespace write) of
             Inl e \<Rightarrow> Inl e
           | Inr (t', bucket) \<Rightarrow>
               (case bucket_Put bucket (w_key write) (w_value write) of
                  Inl e \<Rightarrow> Inl e
                | Inr bucket' \<Rightarrow> Inr (t'(w_namespace write \<mapsto> bucket'))))
      | BatchDelete \<Rightarrow>
          (case Bucket t (w_namespace write) of
             None \<Rightarrow> Inr t
           | Some bucket \<Rightarrow>
               (case bucket_Delete bucket (w_key write) of
                  Inl e \<Rightarrow> Inl e
                | Inr bucket' \<Rightarrow> Inr (t(w_namespace write \<mapsto> bucket'))))
      | BatchOther \<Rightarrow> Inr t)"

text \<open>
  The loop \<^verbatim>\<open>for i := len(uniqEntries) - 1; i >= 0; i--\<close> of the transaction; the second
  argument is \<^verbatim>\<open>i + 1\<close>.
\<close>

fun write_loop :: "WriteInfo list \<Rightarrow> nat \<Rightarrow> tx \<Rightarrow> error + tx" where
  "write_loop uniqEntries 0 t = Inr t"
| "write_loop uniqEntries (Suc i) t =
     (case apply_write (uniqEntries ! i) t of
        Inl e \<Rightarrow> Inl e
      | Inr t' \<Rightarrow> write_loop uniqEntries i t')"

definition WriteBatch :: "BoltDB \<Rightarrow> KVStoreBatch \<Rightarrow> error option exit \<times> BoltDB" where
  "WriteBatch b kvsb =
     (if \<not> IsReady b then (Return (Some ErrDBNotStarted), b)
      else (case scan_entries kvsb (Size kvsb) {} [] of
              Inl e \<Rightarrow> (Return (Some e), b)
            | Inr uniqEntries \<Rightarrow>
                run_retries b (write_loop uniqEntries (length uniqEntries))))"

subsection \<open>The range index\<close>

text \<open>
  Modelled from the spec: \<^verbatim>\<open>byteutil.Uint64ToBytesBigEndian\<close> is not among the source
  files. A boundary key is the 8-byte big-endian encoding of the unsigned 64-bit
  domain value.
\<close>

definition Uint64ToBytesBigEndian :: "64 word \<Rightarrow> bytes" where
  "Uint64ToBytesBigEndian x =
     map (\<lambda>i. ucast (drop_bit (8 * i) x)) [7, 6, 5, 4, 3, 2, 1, 0]"

text \<open>The key and the value of what a cursor yielded; \<^verbatim>\<open>nil\<close> where it yielded nothing.\<close>

definition key_of :: "entry option \<Rightarrow> bytes option" where
  "key_of kv = map_option fst kv"

definition value_of :: "entry option \<Rightarrow> bytes" where
  "value_of kv = (case kv of None \<Rightarrow> [] | Some e \<Rightarrow> snd e)"

text \<open>The end of Insert and Remove: \<^verbatim>\<open>if k != nil { return bucket.Put(k, value) }; return nil\<close>.\<close>

definition put_if_key ::
  "tx \<Rightarrow> string \<Rightarrow> bucket \<Rightarrow> bytes option \<Rightarrow> bytes \<Rightarrow> error + tx" where
  "put_if_key t name bucket k val =
     (case k of
        None \<Rightarrow> Inr (t(name \<mapsto> bucket))
      | Some k' \<Rightarrow>
          (case bucket_Put bucket k' val of
             Inl e \<Rightarrow> Inl e
           | Inr bucket' \<Rightarrow> Inr (t(name \<mapsto> bucket'))))"

definition Insert_tx :: "string \<Rightarrow> 64 word \<Rightarrow> bytes \<Rightarrow> tx \<Rightarrow> error + tx" where
  "Insert_tx name key val t =
     (case Bucket t name of
        None \<Rightarrow> Inl ErrBucketNotExist
      | Some bucket \<Rightarrow>
          (let cur = Cursor bucket;
               ak = Uint64ToBytesBigEndian (key - 1);
               (cur', kv) = Seek cur ak
           in if key_of kv \<noteq> Some ak
              then (case bucket_Put bucket ak (value_of kv) of
                      Inl e \<Rightarrow> Inl e
                    | Inr bucket' \<Rightarrow> put_if_key t name bucket' (key_of kv) val)
              else put_if_key t name bucket (key_of (snd (Next cur'))) val))"

definition Insert :: "BoltDB \<Rightarrow> string \<Rightarrow> 64 word \<Rightarrow> bytes \<Rightarrow> error option exit \<times> BoltDB" where
  "Insert b name key val =
     (if \<not> IsReady b then (Return (Some ErrDBNotStarted), b)
      else run_retries b (Insert_tx name key val))"

definition SeekNext_tx :: "string \<Rightarrow> 64 word \<Rightarrow> tx \<Rightarrow> error + bytes" where
  "SeekNext_tx name key t =
     (case Bucket t name of
        None \<Rightarrow> Inl ErrBucketNotExist
      | Some bucket \<Rightarrow>
          (let cur = Cursor bucket;
               (cur', kv) = Seek cur (Uint64ToBytesBigEndian key)
           in Inr (value_of kv)))"

definition SeekNext :: "BoltDB \<Rightarrow> string \<Rightarrow> 64 word \<Rightarrow> error + bytes" where
  "SeekNext b name key =
     (if \<not> IsReady b then Inl ErrDBNotStarted
      else (case View (SeekNext_tx name key) b of
              Inl err \<Rightarrow> Inl err
            | Inr val \<Rightarrow> Inr val))"

definition SeekPrev_tx :: "string \<Rightarrow> 64 word \<Rightarrow> tx \<Rightarrow> error + bytes" where
  "SeekPrev_tx name key t =
     (case Bucket t name of
        None \<Rightarrow> Inl ErrBucketNotExist
      | Some bucket \<Rightarrow>
          (let cur = Cursor bucket;
               (cur', kv) = Seek cur (Uint64ToBytesBigEndian key);
               (cur'', kv') = Prev cur'
           in Inr (value_of kv')))"

definition SeekPrev :: "BoltDB \<Rightarrow> string \<Rightarrow> 64 word \<Rightarrow> error + bytes" where
  "SeekPrev b name key =
     (if \<not> IsReady b then Inl ErrDBNotStarted
      else (case View (SeekPrev_tx name key) b of
              Inl err \<Rightarrow> Inl err
            | Inr val \<Rightarrow> Inr val))"

definition Remove_tx :: "string \<Rightarrow> 64 word \<Rightarrow> tx \<Rightarrow> error + tx" where
  "Remove_tx name key t =
     (case Bucket t name of
        None \<Rightarrow> Inl ErrBucketNotExist
      | Some bucket \<Rightarrow>
          (let cur = Cursor bucket;
               ak = Uint64ToBytesBigEndian (key - 1);
               (cur', kv) = Seek cur ak
           in if key_of kv \<noteq> Some ak then Inr t
              else (case bucket_Delete bucket ak of
                      Inl e \<Rightarrow> Inl e
                    | Inr bucket' \<Rightarrow>
                        put_if_key t name bucket' (key_of (snd (Next cur'))) (value_of kv))))"

definition Remove :: "BoltDB \<Rightarrow> string \<Rightarrow> 64 word \<Rightarrow> error option exit \<times> BoltDB" where
  "Remove b name key =
     (if \<not> IsReady b then (Return (Some ErrDBNotStarted), b)
      else run_retries b (Remove_tx name key))"

text \<open>
  The loop \<^verbatim>\<open>for k, _ := cur.Prev(); k != nil; k, _ = cur.Prev()\<close> of Purge, which deletes
  every key the cursor walks back over.
\<close>

function Purge_loop :: "cursor \<Rightarrow> bucket \<Rightarrow> error + bucket" where
  "Purge_loop cur bucket =
     (case snd (Prev cur) of
        None \<Rightarrow> Inr bucket
      | Some (k, v) \<Rightarrow>
          (case bucket_Delete bucket k of
             Inl e \<Rightarrow> Inl e
           | Inr bucket' \<Rightarrow> Purge_loop (fst (Prev cur)) bucket'))"
  by pat_completeness auto
termination
  by (relation "measure (\<lambda>(cur, bucket). idx cur)") (auto simp: Prev_def split: if_splits)

declare Purge_loop.simps [simp del]

text \<open>
  The marker \<^verbatim>\<open>NotExist\<close> that Purge writes is a variable of the package declared
  outside the source files; it is the first argument here.
\<close>

definition Purge_tx :: "bytes \<Rightarrow> string \<Rightarrow> 64 word \<Rightarrow> tx \<Rightarrow> error + tx" where
  "Purge_tx NotExist name key t =
     (case Bucket t name of
        None \<Rightarrow> Inl ErrBucketNotExist
      | Some bucket \<Rightarrow>
          (let cur = Cursor bucket;
               (cur', nkv) = Seek cur (Uint64ToBytesBigEndian key)
           in case Purge_loop cur' bucket of
                Inl e \<Rightarrow> Inl e
              | Inr bucket' \<Rightarrow> put_if_key t name bucket' (key_of nkv) NotExist))"

definition Purge :: "bytes \<Rightarrow> BoltDB \<Rightarrow> string \<Rightarrow> 64 word \<Rightarrow> error option exit \<times> BoltDB" where
  "Purge NotExist b name key =
     (if \<not> IsReady b then (Return (Some ErrDBNotStarted), b)
      else run_retries b (Purge_tx NotExist name key))"

section \<open>Notions used to state the properties\<close>

text \<open>
  What bbolt keeps true of a bucket: the keys ascend strictly, no key is empty, and
  keys and values are within the size limits.
\<close>

definition wf_bucket :: "bucket \<Rightarrow> bool" where
  "wf_bucket bkt =
     (sorted_wrt (<) (map fst bkt)
      \<and> (\<forall>e \<in> set bkt. fst e \<noteq> [] \<and> length (fst e) \<le> MaxKeySize \<and> length (snd e) \<le> MaxValueSize))"

text \<open>
  A call \<open>commits\<close> the contents \<open>t\<close>: when it returns without an error the committed
  contents are \<open>t\<close>, and when the operating system fails no commit it does return
  without an error, the contents being \<open>t\<close> and nothing else of the engine changed.
\<close>

definition commits :: "BoltDB \<Rightarrow> error option exit \<times> BoltDB \<Rightarrow> tx \<Rightarrow> bool" where
  "commits b res t =
     ((fst res = Return None \<longrightarrow> db (snd res) = t)
      \<and> (pending b = [] \<longrightarrow> res = (Return None, b\<lparr>db := t\<rparr>)))"

text \<open>The six mutating operations as one type, to state what holds of each of them.\<close>

datatype mutation =
    MPut string bytes bytes
  | MDelete string "bytes option"
  | MWriteBatch KVStoreBatch
  | MInsert string "64 word" bytes
  | MRemove string "64 word"
  | MPurge string "64 word"

fun exec :: "bytes \<Rightarrow> BoltDB \<Rightarrow> mutation \<Rightarrow> error option exit \<times> BoltDB" where
  "exec NotExist b (MPut namespace key val) = Put b namespace key val"
| "exec NotExist b (MDelete namespace key) = Delete b namespace key"
| "exec NotExist b (MWriteBatch kvsb) = WriteBatch b kvsb"
| "exec NotExist b (MInsert name key val) = Insert b name key val"
| "exec NotExist b (MRemove name key) = Remove b name key"
| "exec NotExist b (MPurge name key) = Purge NotExist b name key"

text \<open>
  The bucket an Insert, a Remove and a Purge leave, written with the list functions
  \<open>find\<close> and \<open>filter\<close> in place of the cursor.
\<close>

definition inserted :: "bucket \<Rightarrow> bytes \<Rightarrow> bytes \<Rightarrow> bucket" where
  "inserted bkt ak val =
     (case find (\<lambda>e. ak \<le> fst e) bkt of
        None \<Rightarrow> upsert bkt ak []
      | Some (k, v) \<Rightarrow>
          if k \<noteq> ak then upsert (upsert bkt ak v) k val
          else (case find (\<lambda>e. ak < fst e) bkt of
                  None \<Rightarrow> bkt
                | Some (k', v') \<Rightarrow> upsert bkt k' val))"

definition removed :: "bucket \<Rightarrow> bytes \<Rightarrow> bucket" where
  "removed bkt ak =
     (case find (\<lambda>e. ak \<le> fst e) bkt of
        None \<Rightarrow> bkt
      | Some (k, v) \<Rightarrow>
          if k \<noteq> ak then bkt
          else (case find (\<lambda>e. ak < fst e) bkt of
                  None \<Rightarrow> filter (\<lambda>e. fst e \<noteq> ak) bkt
                | Some (k', v') \<Rightarrow> upsert (filter (\<lambda>e. fst e \<noteq> ak) bkt) k' v))"

definition purged :: "bucket \<Rightarrow> bytes \<Rightarrow> bytes \<Rightarrow> bucket" where
  "purged bkt key NotExist =
     (case filter (\<lambda>e. key \<le> fst e) bkt of
        [] \<Rightarrow> []
      | e # rest \<Rightarrow> (fst e, NotExist) # rest)"

text \<open>
  What a scan of Filter returns, in the scan's own terms: the entries from the first key
  not below \<open>minKey\<close> on, as long as the key is not above \<open>maxKey\<close> (an empty bound
  is no bound), that satisfy the predicate.
\<close>

definition scanned :: "bucket \<Rightarrow> (bytes \<Rightarrow> bytes \<Rightarrow> bool) \<Rightarrow> bytes \<Rightarrow> bytes \<Rightarrow> entry list" where
  "scanned bkt cond minKey maxKey =
     filter (\<lambda>e. cond (fst e) (snd e))
       (takeWhile (\<lambda>e. maxKey = [] \<or> fst e \<le> maxKey)
          (dropWhile (\<lambda>e. fst e < minKey) bkt))"

text \<open>
  The writes of a batch that survive coalescing, in the spec's words: a write takes
  part when it is a Put or a Delete, and it survives when no later write of the batch
  that takes part has the same namespace and key; the survivors stand in batch order.
  \<open>apply_in_order\<close> applies a list of writes from its first to its last, stopping at
  the first error.
\<close>

definition participates :: "WriteInfo \<Rightarrow> bool" where
  "participates w = (w_type w = BatchPut \<or> w_type w = BatchDelete)"

definition pair_of :: "WriteInfo \<Rightarrow> string \<times> bytes" where
  "pair_of w = (w_namespace w, w_key w)"

definition survivors :: "KVStoreBatch \<Rightarrow> WriteInfo list" where
  "survivors kvsb =
     map (\<lambda>i. kvsb ! i)
       (filter (\<lambda>i. participates (kvsb ! i)
                  \<and> (\<forall>j \<in> set [Suc i ..< length kvsb].
                        participates (kvsb ! j) \<longrightarrow> pair_of (kvsb ! j) \<noteq> pair_of (kvsb ! i)))
          [0 ..< length kvsb])"

fun apply_in_order :: "WriteInfo list \<Rightarrow> tx \<Rightarrow> error + tx" where
  "apply_in_order [] t = Inr t"
| "apply_in_order (w # ws) t =
     (case apply_write w t of
        Inl e \<Rightarrow> Inl e
      | Inr t' \<Rightarrow> apply_in_order ws t')"

text \<open>
  The invariant of the coalescing loop: among the positions below \<open>n\<close>, those whose
  write takes part, has a pair not seen yet and is the last one below \<open>n\<close> with its pair.
\<close>

definition keeps :: "KVStoreBatch \<Rightarrow> nat \<Rightarrow> (string \<times> bytes) set \<Rightarrow> nat \<Rightarrow> bool" where
  "keeps kvsb n seen i =
     (participates (kvsb ! i) \<and> pair_of (kvsb ! i) \<notin> seen
      \<and> (\<forall>j \<in> set [Suc i ..< n].
            participates (kvsb ! j) \<longrightarrow> pair_of (kvsb ! j) \<noteq> pair_of (kvsb ! i)))"

text \<open>
  The function each mutating operation runs inside its transaction; for WriteBatch the
  writes that survive coalescing, applied in batch order.
\<close>

fun tx_of :: "bytes \<Rightarrow> mutation \<Rightarrow> tx \<Rightarrow> error + tx" where
  "tx_of NotExist (MPut namespace key val) = Put_tx namespace key val"
| "tx_of NotExist (MDelete namespace key) = Delete_tx namespace key"
| "tx_of NotExist (MWriteBatch kvsb) = apply_in_order (survivors kvsb)"
| "tx_of NotExist (MInsert name key val) = Insert_tx name key val"
| "tx_of NotExist (MRemove name key) = Remove_tx name key"
| "tx_of NotExist (MPurge name key) = Purge_tx NotExist name key"

section \<open>Auxiliary facts\<close>

subsection \<open>The retry loop\<close>

lemma retry_body_fails:
  "fn (db b) = Inl e \<Longrightarrow> retry n fn err b = (if n = 0 then err else Some e, b)"
  by (induction n arbitrary: err) (auto simp: Update_def)

lemma retry_body_ok:
  "fn (db b) = Inr t \<Longrightarrow>
   retry n fn err b =
     (if length (takeWhile (\<lambda>x. x \<noteq> None) (pending b)) < n
      then (None, b\<lparr>db := t,
              pending := drop (Suc (length (takeWhile (\<lambda>x. x \<noteq> None) (pending b)))) (pending b)\<rparr>)
      else (if n = 0 then err else Some (Sys (the (pending b ! (n - 1)))),
            b\<lparr>pending := drop n (pending b)\<rparr>))"
proof (induction n arbitrary: b err)
  case 0
  then show ?case by simp
next
  case (Suc n)
  show ?case
  proof (cases "pending b")
    case Nil
    then show ?thesis using Suc.prems by (simp add: Update_def)
  next
    case (Cons x rest)
    show ?thesis
    proof (cases x)
      case None
      then show ?thesis using Suc.prems Cons by (simp add: Update_def)
    next
      case (Some en)
      have "fn (db (b\<lparr>pending := rest\<rparr>)) = Inr t" using Suc.prems by simp
      from Suc.IH [OF this, of "Some (Sys en)"] Suc.prems Cons Some
      show ?thesis by (cases n) (auto simp: Update_def)
    qed
  qed
qed

lemma bucket_Put_no_sys: "bucket_Put bkt k v \<noteq> Inl (Sys en)"
  by (simp add: bucket_Put_def)

lemma put_if_key_no_sys: "put_if_key t name bkt k v \<noteq> Inl (Sys en)"
  by (auto simp: put_if_key_def bucket_Put_def split: option.splits sum.splits)

lemma Put_tx_no_sys: "Put_tx ns k v t \<noteq> Inl (Sys en)"
  by (auto simp: Put_tx_def CreateBucketIfNotExists_def bucket_Put_def
           split: option.splits sum.splits if_splits)

lemma Delete_tx_no_sys: "Delete_tx ns k t \<noteq> Inl (Sys en)"
  by (auto simp: Delete_tx_def DeleteBucket_def bucket_Delete_def
           split: option.splits sum.splits if_splits)

lemma apply_write_no_sys: "apply_write w t \<noteq> Inl (Sys en)"
  by (auto simp: apply_write_def CreateBucketIfNotExists_def bucket_Put_def bucket_Delete_def
           split: option.splits sum.splits if_splits WriteType.splits)

lemma write_loop_no_sys: "write_loop u n t \<noteq> Inl (Sys en)"
  by (induction n arbitrary: t) (auto simp: apply_write_no_sys split: sum.splits)

lemma Insert_tx_no_sys: "Insert_tx name key v t \<noteq> Inl (Sys en)"
  by (auto simp: Insert_tx_def Let_def put_if_key_no_sys bucket_Put_no_sys
           split: option.splits sum.splits prod.splits)

lemma Remove_tx_no_sys: "Remove_tx name key t \<noteq> Inl (Sys en)"
  by (auto simp: Remove_tx_def Let_def put_if_key_no_sys bucket_Delete_def
           split: option.splits sum.splits prod.splits)

lemma Purge_loop_no_err: "Purge_loop cur bkt \<noteq> Inl e"
  by (induction cur bkt rule: Purge_loop.induct)
     (subst Purge_loop.simps, auto simp: bucket_Delete_def split: option.splits prod.splits)

lemma Purge_tx_no_sys: "Purge_tx ne name key t \<noteq> Inl (Sys en)"
  by (auto simp: Purge_tx_def Let_def put_if_key_no_sys Purge_loop_no_err
           split: option.splits sum.splits prod.splits)

lemma run_retries_Fatal_iff:
  assumes nosys: "fn (db b) \<noteq> Inl (Sys ENOSPC)"
    and run: "run_retries b fn = (r, b')"
  shows "r = Fatal \<longleftrightarrow>
           0 < unat (NumRetries b)
         \<and> unat (NumRetries b) \<le> length (pending b)
         \<and> (\<forall>i < unat (NumRetries b). pending b ! i \<noteq> None)
         \<and> pending b ! (unat (NumRetries b) - 1) = Some ENOSPC
         \<and> pending b' = drop (unat (NumRetries b)) (pending b)"
proof (cases "fn (db b)")
  case (Inl e)
  with nosys have e: "e \<noteq> Sys ENOSPC" by auto
  have "pending b \<noteq> drop (unat (NumRetries b)) (pending b)"
    if "0 < unat (NumRetries b)" "unat (NumRetries b) \<le> length (pending b)"
  proof
    assume a: "pending b = drop (unat (NumRetries b)) (pending b)"
    have "length (pending b) = length (drop (unat (NumRetries b)) (pending b))"
      by (rule arg_cong [OF a])
    then have "length (pending b) = length (pending b) - unat (NumRetries b)"
      by (simp only: length_drop)
    with that show False by arith
  qed
  then have rhs: "\<not> (0 < unat (NumRetries b) \<and> unat (NumRetries b) \<le> length (pending b)
      \<and> pending b = drop (unat (NumRetries b)) (pending b))"
    by blast
  from run Inl have b': "b' = b" and r: "r = finish (if unat (NumRetries b) = 0 then None else Some e)"
    by (auto simp: run_retries_def retry_body_fails)
  from r e have "r \<noteq> Fatal" by (simp add: finish_def)
  with rhs b' show ?thesis by blast
next
  case (Inr t)
  let ?n = "unat (NumRetries b)"
  let ?k = "length (takeWhile (\<lambda>x. x \<noteq> None) (pending b))"
  show ?thesis
  proof (cases "?k < ?n")
    case True
    with run Inr have r: "r = Return None"
      by (auto simp: run_retries_def retry_body_ok finish_def)
    have "\<not> (?n \<le> length (pending b) \<and> (\<forall>i < ?n. pending b ! i \<noteq> None))"
    proof
      assume a: "?n \<le> length (pending b) \<and> (\<forall>i < ?n. pending b ! i \<noteq> None)"
      with True have "?k < length (pending b)" by simp
      then have "\<not> (pending b ! ?k \<noteq> None)" by (rule nth_length_takeWhile)
      with a True show False by blast
    qed
    with r show ?thesis by auto
  next
    case False
    then have le: "?n \<le> ?k" by simp
    have klen: "?k \<le> length (pending b)" by (rule length_takeWhile_le)
    have all: "\<forall>i < ?n. pending b ! i \<noteq> None"
    proof (intro allI impI)
      fix i assume "i < ?n"
      with le have i: "i < ?k" by simp
      then have "takeWhile (\<lambda>x. x \<noteq> None) (pending b) ! i \<in> set (takeWhile (\<lambda>x. x \<noteq> None) (pending b))"
        by (rule nth_mem)
      then have "takeWhile (\<lambda>x. x \<noteq> None) (pending b) ! i \<noteq> None"
        by (auto dest: set_takeWhileD)
      with i show "pending b ! i \<noteq> None" by (simp add: takeWhile_nth)
    qed
    show ?thesis
    proof (cases "?n = 0")
      case True
      with run Inr False show ?thesis
        by (auto simp: run_retries_def retry_body_ok finish_def)
    next
      case n0: False
      then have "?n - 1 < ?n" by simp
      with all have "pending b ! (?n - 1) \<noteq> None" by blast
      then obtain en where en: "pending b ! (?n - 1) = Some en" by auto
      from run Inr False n0 en have "r = finish (Some (Sys en))" and "pending b' = drop ?n (pending b)"
        by (auto simp: run_retries_def retry_body_ok)
      with n0 le klen all en show ?thesis
        by (auto simp: finish_def)
    qed
  qed
qed

lemma drop_consumes:
  assumes "0 < n" "n \<le> length xs"
  shows "xs \<noteq> drop n xs"
proof
  assume a: "xs = drop n xs"
  have "length xs = length (drop n xs)" by (rule arg_cong [OF a])
  then have "length xs = length xs - n" by (simp only: length_drop)
  with assms show False by arith
qed

lemma retry_numeral:
  "retry (numeral k) fn err b =
     (case Update fn b of
        (None, b') \<Rightarrow> (None, b')
      | (Some e, b') \<Rightarrow> retry (pred_numeral k) fn (Some e) b')"
  by (simp add: numeral_eq_Suc)

subsection \<open>Cursors on sorted buckets\<close>

lemma at_idx_simps [simp]:
  "at_idx [] n = None"
  "at_idx (e # rest) 0 = Some e"
  "at_idx (e # rest) (Suc n) = at_idx rest n"
  by (simp_all add: at_idx_def)

lemma at_idx_takeWhile: "at_idx xs (length (takeWhile P xs)) = find (\<lambda>x. \<not> P x) xs"
  by (induction xs) auto

lemma Seek_Cursor:
  "Seek (Cursor bkt) key =
     (\<lparr>snap = bkt, idx = length (takeWhile (\<lambda>e. fst e < key) bkt)\<rparr>,
      find (\<lambda>e. key \<le> fst e) bkt)"
  by (simp add: Seek_def Cursor_def Let_def at_idx_takeWhile not_less)

lemma snd_Next: "snd (Next c) = at_idx (snap c) (Suc (idx c))"
  by (simp add: Next_def at_idx_def)

lemma snd_Prev: "snd (Prev c) = (if 0 < idx c then at_idx (snap c) (idx c - 1) else None)"
  by (simp add: Prev_def)

lemma find_none_below:
  fixes bkt :: bucket
  shows "\<forall>e \<in> set bkt. fst e < key \<Longrightarrow> find (\<lambda>e. key \<le> fst e) bkt = None"
  by (induction bkt) (auto simp: not_le)

lemma find_least:
  fixes bkt :: bucket
  assumes "sorted_wrt (<) (map fst bkt)" "(k, v) \<in> set bkt" "P k"
    and "\<forall>e \<in> set bkt. P (fst e) \<longrightarrow> k \<le> fst e"
  shows "find (\<lambda>e. P (fst e)) bkt = Some (k, v)"
  using assms
proof (induction bkt)
  case Nil
  then show ?case by simp
next
  case (Cons e rest)
  show ?case
  proof (cases "P (fst e)")
    case True
    with Cons.prems have le: "k \<le> fst e" by simp
    have "e = (k, v)"
    proof (rule ccontr)
      assume "e \<noteq> (k, v)"
      with Cons.prems have "(k, v) \<in> set rest" by auto
      with Cons.prems(1) have "fst e < k" by force
      with le show False by simp
    qed
    with True show ?thesis by simp
  next
    case False
    with Cons.prems have "(k, v) \<in> set rest" by auto
    with Cons False show ?thesis by simp
  qed
qed

lemma next_after_seek:
  fixes bkt :: bucket
  assumes "sorted_wrt (<) (map fst bkt)"
    and "find (\<lambda>e. ak \<le> fst e) bkt = Some (ak, v)"
  shows "at_idx bkt (Suc (length (takeWhile (\<lambda>e. fst e < ak) bkt))) = find (\<lambda>e. ak < fst e) bkt"
  using assms
proof (induction bkt)
  case Nil
  then show ?case by simp
next
  case (Cons e rest)
  show ?case
  proof (cases "fst e < ak")
    case True
    then have "\<not> ak \<le> fst e" "\<not> ak < fst e" by auto
    with True Cons show ?thesis by simp
  next
    case False
    then have "ak \<le> fst e" by simp
    with Cons.prems have e: "e = (ak, v)" by simp
    from Cons.prems(1) e have "\<forall>x \<in> set rest. ak < fst x" by auto
    then have "find (\<lambda>e. ak < fst e) rest = (case rest of [] \<Rightarrow> None | x # xs \<Rightarrow> Some x)"
      by (cases rest) auto
    with e show ?thesis by (cases rest) simp_all
  qed
qed

lemma run_retries_commits:
  assumes "fn (db b) = Inr t" "NumRetries b \<noteq> 0"
  shows "commits b (run_retries b fn) t"
proof -
  from assms(2) have n: "0 < unat (NumRetries b)" by (simp add: unat_gt_0)
  note r = retry_body_ok [of fn b t, OF assms(1)]
  show ?thesis
    using n by (auto simp: commits_def run_retries_def r finish_def split: if_splits)
qed

lemma length_Uint64ToBytesBigEndian [simp]: "length (Uint64ToBytesBigEndian x) = 8"
  by (simp add: Uint64ToBytesBigEndian_def)

lemma Uint64ToBytesBigEndian_not_Nil [simp]: "Uint64ToBytesBigEndian x \<noteq> []"
  by (simp add: Uint64ToBytesBigEndian_def)

lemma bucket_Put_ok:
  "k \<noteq> [] \<Longrightarrow> length k \<le> MaxKeySize \<Longrightarrow> length v \<le> MaxValueSize \<Longrightarrow>
   bucket_Put bkt k v = Inr (upsert bkt k v)"
  by (simp add: bucket_Put_def)

lemma bucket_Put_anchor:
  "length v \<le> MaxValueSize \<Longrightarrow>
   bucket_Put bkt (Uint64ToBytesBigEndian x) v = Inr (upsert bkt (Uint64ToBytesBigEndian x) v)"
  by (simp add: bucket_Put_def MaxKeySize_def)

lemma wf_bucket_entry:
  "wf_bucket bkt \<Longrightarrow> (k, v) \<in> set bkt \<Longrightarrow>
   k \<noteq> [] \<and> length k \<le> MaxKeySize \<and> length v \<le> MaxValueSize"
  by (auto simp: wf_bucket_def)

lemma find_in_set: "find P xs = Some x \<Longrightarrow> x \<in> set xs"
  by (auto simp: find_Some_iff)

lemma Insert_tx_eq:
  assumes t: "t name = Some bkt" and wf: "wf_bucket bkt" and val: "length val \<le> MaxValueSize"
  shows "Insert_tx name key val t =
           Inr (t(name \<mapsto> inserted bkt (Uint64ToBytesBigEndian (key - 1)) val))"
proof -
  let ?ak = "Uint64ToBytesBigEndian (key - 1)"
  from wf have srt: "sorted_wrt (<) (map fst bkt)" by (simp add: wf_bucket_def)
  show ?thesis
  proof (cases "find (\<lambda>e. ?ak \<le> fst e) bkt")
    case None
    then show ?thesis using t
      by (simp add: Insert_tx_def Bucket_def Seek_Cursor key_of_def value_of_def
            bucket_Put_anchor put_if_key_def inserted_def)
  next
    case (Some e)
    obtain k v where e: "e = (k, v)" by (cases e)
    from Some e have mem: "(k, v) \<in> set bkt" by (auto dest: find_in_set)
    note sz = wf_bucket_entry [OF wf mem]
    show ?thesis
    proof (cases "k = ?ak")
      case False
      with Some e t sz val show ?thesis
        by (simp add: Insert_tx_def Bucket_def Seek_Cursor key_of_def value_of_def
              bucket_Put_anchor bucket_Put_ok put_if_key_def inserted_def)
    next
      case True
      with Some e have f: "find (\<lambda>e. ?ak \<le> fst e) bkt = Some (?ak, v)" by simp
      note nx = next_after_seek [OF srt f]
      show ?thesis
      proof (cases "find (\<lambda>e. ?ak < fst e) bkt")
        case None
        with f t nx show ?thesis
          by (simp add: Insert_tx_def Bucket_def Seek_Cursor key_of_def snd_Next
                put_if_key_def inserted_def)
      next
        case (Some e')
        obtain k' v' where e': "e' = (k', v')" by (cases e')
        from Some e' have "(k', v') \<in> set bkt" by (auto dest: find_in_set)
        note sz' = wf_bucket_entry [OF wf this]
        from Some e' f t nx sz' val show ?thesis
          by (simp add: Insert_tx_def Bucket_def Seek_Cursor key_of_def snd_Next
                put_if_key_def bucket_Put_ok inserted_def)
      qed
    qed
  qed
qed

lemma Remove_tx_eq:
  assumes t: "t name = Some bkt" and wf: "wf_bucket bkt"
  shows "Remove_tx name key t = Inr (t(name \<mapsto> removed bkt (Uint64ToBytesBigEndian (key - 1))))"
proof -
  let ?ak = "Uint64ToBytesBigEndian (key - 1)"
  from wf have srt: "sorted_wrt (<) (map fst bkt)" by (simp add: wf_bucket_def)
  from t have same: "t(name \<mapsto> bkt) = t" by auto
  show ?thesis
  proof (cases "find (\<lambda>e. ?ak \<le> fst e) bkt")
    case None
    then show ?thesis using t same
      by (simp add: Remove_tx_def Bucket_def Seek_Cursor key_of_def removed_def)
  next
    case (Some e)
    obtain k v where e: "e = (k, v)" by (cases e)
    from Some e have mem: "(k, v) \<in> set bkt" by (auto dest: find_in_set)
    note sz = wf_bucket_entry [OF wf mem]
    show ?thesis
    proof (cases "k = ?ak")
      case False
      with Some e t same show ?thesis
        by (simp add: Remove_tx_def Bucket_def Seek_Cursor key_of_def removed_def)
    next
      case True
      with Some e have f: "find (\<lambda>e. ?ak \<le> fst e) bkt = Some (?ak, v)" by simp
      note nx = next_after_seek [OF srt f]
      show ?thesis
      proof (cases "find (\<lambda>e. ?ak < fst e) bkt")
        case None
        with f t nx show ?thesis
          by (simp add: Remove_tx_def Bucket_def Seek_Cursor key_of_def value_of_def snd_Next
                put_if_key_def bucket_Delete_def removed_def)
      next
        case (Some e')
        obtain k' v' where e': "e' = (k', v')" by (cases e')
        from Some e' have "(k', v') \<in> set bkt" by (auto dest: find_in_set)
        note sz' = wf_bucket_entry [OF wf this]
        from Some e' f t nx sz' sz show ?thesis
          by (simp add: Remove_tx_def Bucket_def Seek_Cursor key_of_def value_of_def snd_Next
                put_if_key_def bucket_Put_ok bucket_Delete_def removed_def)
      qed
    qed
  qed
qed

lemma takeWhile_sorted:
  fixes bkt :: bucket
  shows "sorted_wrt (<) (map fst bkt) \<Longrightarrow>
         takeWhile (\<lambda>e. fst e < key) bkt = filter (\<lambda>e. fst e < key) bkt"
proof (induction bkt)
  case Nil
  then show ?case by simp
next
  case (Cons e rest)
  show ?case
  proof (cases "fst e < key")
    case True
    with Cons show ?thesis by simp
  next
    case False
    with Cons.prems have "\<forall>x \<in> set rest. \<not> fst x < key" by force
    then have "filter (\<lambda>e. fst e < key) rest = []" by (simp add: filter_empty_conv)
    with False show ?thesis by simp
  qed
qed

lemma find_filter_hd: "find P xs = (case filter P xs of [] \<Rightarrow> None | x # rest \<Rightarrow> Some x)"
  by (induction xs) auto

lemma Purge_loop_eq:
  "i \<le> length s \<Longrightarrow>
   Purge_loop \<lparr>snap = s, idx = i\<rparr> bkt = Inr (filter (\<lambda>e. fst e \<notin> fst ` set (take i s)) bkt)"
proof (induction i arbitrary: bkt)
  case 0
  show ?case by (subst Purge_loop.simps) (simp add: Prev_def)
next
  case (Suc i)
  then have i: "i < length s" by simp
  then have tk: "take (Suc i) s = take i s @ [s ! i]" by (rule take_Suc_conv_app_nth)
  obtain k v where kv: "s ! i = (k, v)" by (cases "s ! i")
  from Suc i have IH: "Purge_loop \<lparr>snap = s, idx = i\<rparr> bkt' =
      Inr (filter (\<lambda>e. fst e \<notin> fst ` set (take i s)) bkt')" for bkt'
    by simp
  show ?case
    by (subst Purge_loop.simps)
       (auto simp: Prev_def at_idx_def i kv bucket_Delete_def IH tk intro!: filter_cong)
qed

lemma Purge_tx_eq:
  assumes t: "t name = Some bkt" and wf: "wf_bucket bkt" and ne: "length NotExist \<le> MaxValueSize"
  shows "Purge_tx NotExist name key t =
           Inr (t(name \<mapsto> purged bkt (Uint64ToBytesBigEndian key) NotExist))"
proof -
  let ?k = "Uint64ToBytesBigEndian key"
  let ?i = "length (takeWhile (\<lambda>e. fst e < ?k) bkt)"
  from wf have srt: "sorted_wrt (<) (map fst bkt)" by (simp add: wf_bucket_def)
  have tk: "take ?i bkt = filter (\<lambda>e. fst e < ?k) bkt"
    using takeWhile_eq_take [of "\<lambda>e. fst e < ?k" bkt] takeWhile_sorted [OF srt, of ?k] by simp
  have "filter (\<lambda>e. fst e \<notin> fst ` set (take ?i bkt)) bkt = filter (\<lambda>e. ?k \<le> fst e) bkt"
    unfolding tk by (rule filter_cong) (auto simp: not_less [symmetric])
  with length_takeWhile_le [of "\<lambda>e. fst e < ?k" bkt]
  have loop: "Purge_loop \<lparr>snap = bkt, idx = ?i\<rparr> bkt = Inr (filter (\<lambda>e. ?k \<le> fst e) bkt)"
    by (simp add: Purge_loop_eq)
  show ?thesis
  proof (cases "filter (\<lambda>e. ?k \<le> fst e) bkt")
    case Nil
    with t loop show ?thesis
      by (simp add: Purge_tx_def Bucket_def Seek_Cursor find_filter_hd key_of_def
            put_if_key_def purged_def)
  next
    case (Cons e rest)
    obtain k v where e: "e = (k, v)" by (cases e)
    have "e \<in> set (filter (\<lambda>e. ?k \<le> fst e) bkt)" using Cons by simp
    with e have "(k, v) \<in> set bkt" by simp
    note sz = wf_bucket_entry [OF wf this]
    from Cons e t loop sz ne show ?thesis
      by (simp add: Purge_tx_def Bucket_def Seek_Cursor find_filter_hd key_of_def
            put_if_key_def purged_def bucket_Put_ok)
  qed
qed

lemma find_none_at_or_below:
  fixes bkt :: bucket
  shows "\<forall>e \<in> set bkt. fst e \<le> key \<Longrightarrow> find (\<lambda>e. key < fst e) bkt = None"
  by (induction bkt) (auto simp: not_less)

lemma inserted_cases:
  assumes wf: "wf_bucket bkt"
  shows "(\<forall>e \<in> set bkt. fst e < ak) \<Longrightarrow> inserted bkt ak val = upsert bkt ak []"
    and "(k, v) \<in> set bkt \<Longrightarrow> ak < k \<Longrightarrow> \<forall>e \<in> set bkt. ak \<le> fst e \<longrightarrow> k \<le> fst e \<Longrightarrow>
         inserted bkt ak val = upsert (upsert bkt ak v) k val"
    and "(ak, v) \<in> set bkt \<Longrightarrow> (k', v') \<in> set bkt \<Longrightarrow> ak < k' \<Longrightarrow>
         \<forall>e \<in> set bkt. ak < fst e \<longrightarrow> k' \<le> fst e \<Longrightarrow>
         inserted bkt ak val = upsert bkt k' val"
    and "(ak, v) \<in> set bkt \<Longrightarrow> \<forall>e \<in> set bkt. fst e \<le> ak \<Longrightarrow> inserted bkt ak val = bkt"
proof -
  from wf have srt: "sorted_wrt (<) (map fst bkt)" by (simp add: wf_bucket_def)
  show "inserted bkt ak val = upsert bkt ak []" if "\<forall>e \<in> set bkt. fst e < ak"
    using find_none_below [OF that] by (simp add: inserted_def)
  show "inserted bkt ak val = upsert (upsert bkt ak v) k val"
    if "(k, v) \<in> set bkt" "ak < k" "\<forall>e \<in> set bkt. ak \<le> fst e \<longrightarrow> k \<le> fst e"
  proof -
    from that have "find (\<lambda>e. ak \<le> fst e) bkt = Some (k, v)"
      by (intro find_least [OF srt, where P = "\<lambda>x. ak \<le> x"]) auto
    moreover from that(2) have "k \<noteq> ak" by auto
    ultimately show ?thesis by (simp add: inserted_def)
  qed
  have at: "find (\<lambda>e. ak \<le> fst e) bkt = Some (ak, v)" if "(ak, v) \<in> set bkt"
    using that by (intro find_least [OF srt, where P = "\<lambda>x. ak \<le> x"]) auto
  show "inserted bkt ak val = upsert bkt k' val"
    if "(ak, v) \<in> set bkt" "(k', v') \<in> set bkt" "ak < k'"
       "\<forall>e \<in> set bkt. ak < fst e \<longrightarrow> k' \<le> fst e"
  proof -
    from that have "find (\<lambda>e. ak < fst e) bkt = Some (k', v')"
      by (intro find_least [OF srt, where P = "\<lambda>x. ak < x"]) auto
    with at [OF that(1)] show ?thesis by (simp add: inserted_def)
  qed
  show "inserted bkt ak val = bkt" if "(ak, v) \<in> set bkt" "\<forall>e \<in> set bkt. fst e \<le> ak"
    using at [OF that(1)] find_none_at_or_below [OF that(2)] by (simp add: inserted_def)
qed

lemma enc_14: "Uint64ToBytesBigEndian (15 - 1) = [0, 0, 0, 0, 0, 0, 0, 14]"
  by (simp add: Uint64ToBytesBigEndian_def)

lemma removed_cases:
  assumes wf: "wf_bucket bkt"
  shows "(ak, v) \<in> set bkt \<Longrightarrow> (k', v') \<in> set bkt \<Longrightarrow> ak < k' \<Longrightarrow>
         \<forall>e \<in> set bkt. ak < fst e \<longrightarrow> k' \<le> fst e \<Longrightarrow>
         removed bkt ak = upsert (filter (\<lambda>e. fst e \<noteq> ak) bkt) k' v"
    and "(ak, v) \<in> set bkt \<Longrightarrow> \<forall>e \<in> set bkt. fst e \<le> ak \<Longrightarrow>
         removed bkt ak = filter (\<lambda>e. fst e \<noteq> ak) bkt"
    and "ak \<notin> fst ` set bkt \<Longrightarrow> removed bkt ak = bkt"
proof -
  from wf have srt: "sorted_wrt (<) (map fst bkt)" by (simp add: wf_bucket_def)
  have at: "find (\<lambda>e. ak \<le> fst e) bkt = Some (ak, v)" if "(ak, v) \<in> set bkt"
    using that by (intro find_least [OF srt, where P = "\<lambda>x. ak \<le> x"]) auto
  show "removed bkt ak = upsert (filter (\<lambda>e. fst e \<noteq> ak) bkt) k' v"
    if "(ak, v) \<in> set bkt" "(k', v') \<in> set bkt" "ak < k'"
       "\<forall>e \<in> set bkt. ak < fst e \<longrightarrow> k' \<le> fst e"
  proof -
    from that have "find (\<lambda>e. ak < fst e) bkt = Some (k', v')"
      by (intro find_least [OF srt, where P = "\<lambda>x. ak < x"]) auto
    with at [OF that(1)] show ?thesis by (simp add: removed_def)
  qed
  show "removed bkt ak = filter (\<lambda>e. fst e \<noteq> ak) bkt"
    if "(ak, v) \<in> set bkt" "\<forall>e \<in> set bkt. fst e \<le> ak"
    using at [OF that(1)] find_none_at_or_below [OF that(2)] by (simp add: removed_def)
  show "removed bkt ak = bkt" if "ak \<notin> fst ` set bkt"
  proof (cases "find (\<lambda>e. ak \<le> fst e) bkt")
    case None
    then show ?thesis by (simp add: removed_def)
  next
    case (Some e)
    then have "e \<in> set bkt" by (rule find_in_set)
    with that have "fst e \<noteq> ak" by auto
    with Some show ?thesis by (cases e) (simp add: removed_def)
  qed
qed

lemma enc_99: "Uint64ToBytesBigEndian (100 - 1) = [0, 0, 0, 0, 0, 0, 0, 99]"
  by (simp add: Uint64ToBytesBigEndian_def)

lemma enc_100: "Uint64ToBytesBigEndian 100 = [0, 0, 0, 0, 0, 0, 0, 100]"
  by (simp add: Uint64ToBytesBigEndian_def)

lemma takeWhile_all_at_or_after:
  fixes bkt :: bucket
  shows "\<forall>e \<in> set bkt. key \<le> fst e \<Longrightarrow> takeWhile (\<lambda>e. fst e < key) bkt = []"
  by (cases bkt) (auto simp: not_less)

lemma prev_before_seek:
  fixes bkt :: bucket
  assumes "sorted_wrt (<) (map fst bkt)" "(k, v) \<in> set bkt" "k < key"
    and "\<forall>e \<in> set bkt. fst e < key \<longrightarrow> fst e \<le> k"
  shows "0 < length (takeWhile (\<lambda>e. fst e < key) bkt)
       \<and> at_idx bkt (length (takeWhile (\<lambda>e. fst e < key) bkt) - 1) = Some (k, v)"
  using assms
proof (induction bkt)
  case Nil
  then show ?case by simp
next
  case (Cons e rest)
  show ?case
  proof (cases "fst e < key")
    case False
    have "(k, v) \<noteq> e" using False Cons.prems(3) by auto
    with Cons.prems have "(k, v) \<in> set rest" by auto
    with Cons.prems(1) have "fst e < k" by force
    with Cons.prems(3) False show ?thesis by auto
  next
    case True
    show ?thesis
    proof (cases "(k, v) = e")
      case same: True
      have "\<forall>x \<in> set rest. key \<le> fst x"
      proof
        fix x assume x: "x \<in> set rest"
        with Cons.prems(1) same have "k < fst x" by force
        show "key \<le> fst x"
        proof (rule ccontr)
          assume "\<not> key \<le> fst x"
          then have "fst x < key" by simp
          with Cons.prems(4) x have "fst x \<le> k" by simp
          with \<open>k < fst x\<close> show False by simp
        qed
      qed
      then have "takeWhile (\<lambda>e. fst e < key) rest = []" by (rule takeWhile_all_at_or_after)
      with True same show ?thesis by simp
    next
      case False
      with Cons.prems have "(k, v) \<in> set rest" by auto
      with Cons have IH: "0 < length (takeWhile (\<lambda>e. fst e < key) rest)
        \<and> at_idx rest (length (takeWhile (\<lambda>e. fst e < key) rest) - 1) = Some (k, v)"
        by simp
      then obtain m where m: "length (takeWhile (\<lambda>e. fst e < key) rest) = Suc m"
        by (cases "length (takeWhile (\<lambda>e. fst e < key) rest)") auto
      with IH True show ?thesis by simp
    qed
  qed
qed

lemma keys_upsert: "fst ` set (upsert bkt k v) = insert k (fst ` set bkt)"
  by (induction bkt k v rule: upsert.induct) (simp_all add: insert_commute)

lemma anchor_in_inserted:
  assumes "wf_bucket bkt"
  shows "ak \<in> fst ` set (inserted bkt ak val)"
proof (cases "find (\<lambda>e. ak \<le> fst e) bkt")
  case None
  then show ?thesis by (simp add: inserted_def keys_upsert)
next
  case (Some e)
  then have mem: "e \<in> set bkt" by (rule find_in_set)
  obtain k v where e: "e = (k, v)" by (cases e)
  show ?thesis
  proof (cases "k = ak")
    case False
    with Some e show ?thesis by (simp add: inserted_def keys_upsert)
  next
    case True
    with mem e have "ak \<in> fst ` set bkt" by force
    with True Some e show ?thesis
      by (auto simp: inserted_def keys_upsert split: option.splits)
  qed
qed

lemma anchor_not_in_removed:
  assumes wf: "wf_bucket bkt"
  shows "ak \<notin> fst ` set (removed bkt ak)"
proof (cases "ak \<in> fst ` set bkt")
  case False
  then show ?thesis by (simp add: removed_cases(3) [OF wf])
next
  case True
  then obtain v where v: "(ak, v) \<in> set bkt" by force
  from wf have srt: "sorted_wrt (<) (map fst bkt)" by (simp add: wf_bucket_def)
  from v have f: "find (\<lambda>e. ak \<le> fst e) bkt = Some (ak, v)"
    by (intro find_least [OF srt, where P = "\<lambda>x. ak \<le> x"]) auto
  show ?thesis
  proof (cases "find (\<lambda>e. ak < fst e) bkt")
    case None
    with f show ?thesis by (auto simp: removed_def)
  next
    case (Some e')
    then have "ak < fst e'" by (auto simp: find_Some_iff)
    then have "fst e' \<noteq> ak" by auto
    with f Some show ?thesis by (cases e') (auto simp: removed_def keys_upsert)
  qed
qed

lemma anchor_of_zero:
  "Uint64ToBytesBigEndian (0 - 1) = [255, 255, 255, 255, 255, 255, 255, 255]"
proof -
  have "(0 :: 64 word) - 1 = 18446744073709551615" by simp
  moreover have "Uint64ToBytesBigEndian 18446744073709551615
                   = [255, 255, 255, 255, 255, 255, 255, 255]"
    by (simp add: Uint64ToBytesBigEndian_def)
  ultimately show ?thesis by (simp only:)
qed

subsection \<open>The loops of Filter, Range and WriteBatch\<close>

lemma Filter_loop_None: "Filter_loop cond cm mk c None fk fv = (fk, fv)"
  by (subst Filter_loop.simps) simp

lemma Filter_loop_eq:
  "Filter_loop cond cm mk \<lparr>snap = s, idx = i\<rparr> (at_idx s i) fk fv =
     (fk @ map fst (filter (\<lambda>e. cond (fst e) (snd e))
                     (takeWhile (\<lambda>e. \<not> (cm \<and> mk < fst e)) (drop i s))),
      fv @ map snd (filter (\<lambda>e. cond (fst e) (snd e))
                     (takeWhile (\<lambda>e. \<not> (cm \<and> mk < fst e)) (drop i s))))"
proof (induction "length s - i" arbitrary: i fk fv)
  case 0
  then have "at_idx s i = None" "drop i s = []" by (simp_all add: at_idx_def)
  then show ?case by (simp add: Filter_loop_None)
next
  case (Suc n)
  then have i: "i < length s" by simp
  then have at: "at_idx s i = Some (s ! i)" by (simp add: at_idx_def)
  from i have dr: "drop i s = s ! i # drop (Suc i) s" by (simp add: Cons_nth_drop_Suc)
  obtain k v where kv: "s ! i = (k, v)" by (cases "s ! i")
  have nx: "Filter_loop cond cm mk (fst (Next \<lparr>snap = s, idx = i\<rparr>))
              (snd (Next \<lparr>snap = s, idx = i\<rparr>)) fk' fv' =
            (fk' @ map fst (filter (\<lambda>e. cond (fst e) (snd e))
                     (takeWhile (\<lambda>e. \<not> (cm \<and> mk < fst e)) (drop (Suc i) s))),
             fv' @ map snd (filter (\<lambda>e. cond (fst e) (snd e))
                     (takeWhile (\<lambda>e. \<not> (cm \<and> mk < fst e)) (drop (Suc i) s))))" for fk' fv'
  proof (cases "Suc i < length s")
    case True
    with Suc(2) have "n = length s - Suc i" by simp
    from Suc(1) [OF this, of fk' fv'] True show ?thesis by (simp add: Next_def)
  next
    case False
    with i have "drop (Suc i) s = []" by simp
    with False show ?thesis by (simp add: Next_def Filter_loop_None)
  qed
  show ?case
    by (subst Filter_loop.simps) (simp add: at dr kv nx)
qed

lemma sorted_takeWhile_filter:
  assumes "sorted_wrt (\<lambda>a b. fst a < fst b) (xs :: bucket)"
    and "\<And>a b. a \<le> b \<Longrightarrow> P b \<Longrightarrow> P a"
  shows "takeWhile (\<lambda>e. P (fst e)) xs = filter (\<lambda>e. P (fst e)) xs"
  using assms(1)
proof (induction xs)
  case Nil
  then show ?case by simp
next
  case (Cons e rest)
  show ?case
  proof (cases "P (fst e)")
    case True
    with Cons show ?thesis by simp
  next
    case False
    have "\<forall>x \<in> set rest. \<not> P (fst x)"
    proof
      fix x assume "x \<in> set rest"
      with Cons.prems have "fst e \<le> fst x" by auto
      with assms(2) False show "\<not> P (fst x)" by blast
    qed
    then have "filter (\<lambda>e. P (fst e)) rest = []" by (simp add: filter_empty_conv)
    with False show ?thesis by simp
  qed
qed

lemma sorted_dropWhile_filter:
  assumes "sorted_wrt (\<lambda>a b. fst a < fst b) (xs :: bucket)"
    and "\<And>a b. a \<le> b \<Longrightarrow> P b \<Longrightarrow> P a"
  shows "dropWhile (\<lambda>e. P (fst e)) xs = filter (\<lambda>e. \<not> P (fst e)) xs"
  using assms(1)
proof (induction xs)
  case Nil
  then show ?case by simp
next
  case (Cons e rest)
  show ?case
  proof (cases "P (fst e)")
    case True
    with Cons show ?thesis by simp
  next
    case False
    have "\<forall>x \<in> set rest. \<not> P (fst x)"
    proof
      fix x assume "x \<in> set rest"
      with Cons.prems have "fst e \<le> fst x" by auto
      with assms(2) False show "\<not> P (fst x)" by blast
    qed
    then have "filter (\<lambda>e. \<not> P (fst e)) rest = rest" by (simp add: filter_id_conv)
    with False show ?thesis by simp
  qed
qed

lemma Filter_tx_eq:
  assumes "t ns = Some bkt"
  shows "Filter_tx ns cond minKey maxKey t =
           Inr (map fst (scanned bkt cond minKey maxKey), map snd (scanned bkt cond minKey maxKey))"
proof -
  let ?i = "length (takeWhile (\<lambda>e. fst e < minKey) bkt)"
  have start: "(if 0 < length minKey then Seek (Cursor bkt) minKey else First (Cursor bkt))
                 = (\<lparr>snap = bkt, idx = ?i\<rparr>, at_idx bkt ?i)"
  proof (cases "minKey = []")
    case True
    then have "takeWhile (\<lambda>e. fst e < minKey) bkt = []" by (cases bkt) auto
    with True show ?thesis by (simp add: First_def Cursor_def)
  next
    case False
    then show ?thesis by (simp add: Seek_def Cursor_def Let_def)
  qed
  have dr: "drop ?i bkt = dropWhile (\<lambda>e. fst e < minKey) bkt"
    by (simp add: dropWhile_eq_drop)
  have tw: "(\<lambda>e. \<not> (0 < length maxKey \<and> maxKey < fst e)) = (\<lambda>e. maxKey = [] \<or> fst e \<le> maxKey)"
    by (auto simp: fun_eq_iff not_less)
  have loop: "Filter_loop cond (0 < length maxKey) maxKey \<lparr>snap = bkt, idx = ?i\<rparr> (at_idx bkt ?i) [] []
      = (map fst (scanned bkt cond minKey maxKey), map snd (scanned bkt cond minKey maxKey))"
    unfolding Filter_loop_eq dr tw scanned_def by simp
  show ?thesis
  proof (cases "at_idx bkt ?i")
    case None
    then have "?i \<ge> length bkt" by (simp add: at_idx_def split: if_splits)
    then have "drop ?i bkt = []" by simp
    with dr have "scanned bkt cond minKey maxKey = []" by (simp add: scanned_def)
    with None assms start show ?thesis
      by (simp add: Filter_tx_def Bucket_def Let_def del: length_greater_0_conv)
  next
    case (Some e)
    with assms start loop show ?thesis
      by (simp add: Filter_tx_def Bucket_def Let_def del: length_greater_0_conv)
  qed
qed

lemma scanned_sorted:
  assumes "wf_bucket bkt"
  shows "scanned bkt cond minKey maxKey =
           filter (\<lambda>e. minKey \<le> fst e \<and> (maxKey = [] \<or> fst e \<le> maxKey) \<and> cond (fst e) (snd e)) bkt"
proof -
  from assms have srt: "sorted_wrt (\<lambda>a b. fst a < fst b) bkt"
    by (simp add: wf_bucket_def sorted_wrt_map)
  have d: "dropWhile (\<lambda>e. fst e < minKey) bkt = filter (\<lambda>e. \<not> fst e < minKey) bkt"
    by (rule sorted_dropWhile_filter [OF srt]) auto
  have srt': "sorted_wrt (\<lambda>a b. fst a < fst b) (filter (\<lambda>e. \<not> fst e < minKey) bkt)"
    using srt by (rule sorted_wrt_filter)
  have t: "takeWhile (\<lambda>e. maxKey = [] \<or> fst e \<le> maxKey) (filter (\<lambda>e. \<not> fst e < minKey) bkt)
         = filter (\<lambda>e. maxKey = [] \<or> fst e \<le> maxKey) (filter (\<lambda>e. \<not> fst e < minKey) bkt)"
    by (rule sorted_takeWhile_filter [OF srt', where P = "\<lambda>k. maxKey = [] \<or> k \<le> maxKey"]) auto
  show ?thesis
    unfolding scanned_def d t by (auto simp: not_less intro: filter_cong)
qed

lemma Range_loop_None:
  "Range_loop c None n vals = (if n = 0 then Inr vals else Inl ErrNotExist)"
  by (cases n) simp_all

lemma Range_loop_eq:
  "i \<le> length s \<Longrightarrow>
   Range_loop \<lparr>snap = s, idx = i\<rparr> (at_idx s i) n vals =
     (if n \<le> length s - i then Inr (vals @ map snd (take n (drop i s))) else Inl ErrNotExist)"
proof (induction n arbitrary: i vals)
  case 0
  then show ?case by simp
next
  case (Suc n)
  show ?case
  proof (cases "i < length s")
    case False
    with Suc.prems have "at_idx s i = None" by (simp add: at_idx_def)
    with False show ?thesis by simp
  next
    case True
    then have at: "at_idx s i = Some (s ! i)" by (simp add: at_idx_def)
    from True have dr: "drop i s = s ! i # drop (Suc i) s" by (simp add: Cons_nth_drop_Suc)
    obtain k v where kv: "s ! i = (k, v)" by (cases "s ! i")
    show ?thesis
    proof (cases "Suc i < length s")
      case si: True
      then have "Suc i \<le> length s" by simp
      from Suc.IH [OF this, of "vals @ [v]"] si True show ?thesis
        by (auto simp: at kv dr Next_def)
    next
      case False
      with True have "length s - i = 1" "drop (Suc i) s = []" by simp_all
      with False show ?thesis by (simp add: at kv dr Next_def Range_loop_None)
    qed
  qed
qed

lemma Range_tx_eq:
  assumes "t ns = Some bkt"
  shows "Range_tx ns key count t =
           (if dropWhile (\<lambda>e. fst e < key) bkt \<noteq> []
               \<and> unat count \<le> length (dropWhile (\<lambda>e. fst e < key) bkt)
            then Inr (map snd (take (unat count) (dropWhile (\<lambda>e. fst e < key) bkt)))
            else Inl ErrNotExist)"
proof -
  let ?i = "length (takeWhile (\<lambda>e. fst e < key) bkt)"
  have sk: "Seek (Cursor bkt) key = (\<lparr>snap = bkt, idx = ?i\<rparr>, at_idx bkt ?i)"
    by (simp add: Seek_def Cursor_def Let_def)
  have dr: "dropWhile (\<lambda>e. fst e < key) bkt = drop ?i bkt" by (rule dropWhile_eq_drop)
  have le: "?i \<le> length bkt" by (rule length_takeWhile_le)
  show ?thesis
  proof (cases "at_idx bkt ?i")
    case None
    then have "?i \<ge> length bkt" by (simp add: at_idx_def split: if_splits)
    then have "drop ?i bkt = []" by simp
    with None assms sk dr show ?thesis by (simp add: Range_tx_def Bucket_def)
  next
    case (Some e)
    then have "?i < length bkt" by (simp add: at_idx_def split: if_splits)
    then have ne: "drop ?i bkt \<noteq> []" by simp
    from Range_loop_eq [OF le, of "unat count" "[]"] Some
    have "Range_loop \<lparr>snap = bkt, idx = ?i\<rparr> (Some e) (unat count) [] =
      (if unat count \<le> length bkt - ?i then Inr (map snd (take (unat count) (drop ?i bkt)))
       else Inl ErrNotExist)"
      by simp
    with Some assms sk ne show ?thesis unfolding dr
      by (simp add: Range_tx_def Bucket_def)
  qed
qed

lemma keeps_last: "keeps kvsb (Suc n) seen n = (participates (kvsb ! n) \<and> pair_of (kvsb ! n) \<notin> seen)"
  by (simp add: keeps_def)

lemma keeps_Suc:
  assumes "i < n"
  shows "keeps kvsb (Suc n) seen i =
           (if participates (kvsb ! n) then keeps kvsb n (insert (pair_of (kvsb ! n)) seen) i
            else keeps kvsb n seen i)"
  using assms by (auto simp: keeps_def)

lemma filter_keeps_Suc:
  "filter (keeps kvsb (Suc n) seen) [0 ..< n] =
     (if participates (kvsb ! n) then filter (keeps kvsb n (insert (pair_of (kvsb ! n)) seen)) [0 ..< n]
      else filter (keeps kvsb n seen) [0 ..< n])"
  by (auto intro!: filter_cong simp: keeps_Suc)

lemma keeps_seen:
  "p \<in> seen \<Longrightarrow> keeps kvsb n (insert p seen) = keeps kvsb n seen"
  by (simp add: insert_absorb)

lemma scan_entries_eq:
  "n \<le> length kvsb \<Longrightarrow>
   scan_entries kvsb n seen acc =
     Inr (acc @ rev (map (\<lambda>i. kvsb ! i) (filter (keeps kvsb n seen) [0 ..< n])))"
proof (induction n arbitrary: seen acc)
  case 0
  then show ?case by simp
next
  case (Suc n)
  then have n: "n < length kvsb" and le: "n \<le> length kvsb" by simp_all
  note IH = Suc.IH [OF le]
  show ?case
  proof (cases "participates (kvsb ! n)")
    case False
    then have "w_type (kvsb ! n) \<noteq> BatchPut \<and> w_type (kvsb ! n) \<noteq> BatchDelete"
      by (simp add: participates_def)
    with False n show ?thesis
      by (simp add: Entry_def IH filter_keeps_Suc keeps_last)
  next
    case True
    then have ty: "\<not> (w_type (kvsb ! n) \<noteq> BatchPut \<and> w_type (kvsb ! n) \<noteq> BatchDelete)"
      by (simp add: participates_def)
    show ?thesis
    proof (cases "pair_of (kvsb ! n) \<in> seen")
      case inseen: True
      then have "(w_namespace (kvsb ! n), w_key (kvsb ! n)) \<in> seen" by (simp add: pair_of_def)
      with True ty n inseen show ?thesis
        by (auto simp: Entry_def IH filter_keeps_Suc keeps_last keeps_seen)
    next
      case notseen: False
      then have "(w_namespace (kvsb ! n), w_key (kvsb ! n)) \<notin> seen" by (simp add: pair_of_def)
      with True ty n notseen show ?thesis
        by (auto simp: Entry_def IH filter_keeps_Suc keeps_last pair_of_def)
    qed
  qed
qed

lemma scan_entries_survivors:
  "scan_entries kvsb (Size kvsb) {} [] = Inr (rev (survivors kvsb))"
proof -
  have "keeps kvsb (length kvsb) {} = (\<lambda>i. participates (kvsb ! i)
                  \<and> (\<forall>j \<in> set [Suc i ..< length kvsb].
                        participates (kvsb ! j) \<longrightarrow> pair_of (kvsb ! j) \<noteq> pair_of (kvsb ! i)))"
    by (simp add: keeps_def fun_eq_iff)
  then show ?thesis
    by (simp add: Size_def scan_entries_eq survivors_def)
qed

lemma write_loop_eq:
  "n \<le> length u \<Longrightarrow> write_loop u n t = apply_in_order (rev (take n u)) t"
proof (induction n arbitrary: t)
  case 0
  then show ?case by simp
next
  case (Suc n)
  then have n: "n < length u" and le: "n \<le> length u" by simp_all
  from n have r: "rev (take (Suc n) u) = u ! n # rev (take n u)"
    by (simp add: take_Suc_conv_app_nth)
  show ?case
    unfolding r by (simp add: Suc.IH [OF le] split: sum.splits)
qed

lemma survivors_example:
  "survivors
     [\<lparr>w_type = BatchPut, w_namespace = ''ns'', w_key = [1], w_value = [11]\<rparr>,
      \<lparr>w_type = BatchDelete, w_namespace = ''ns'', w_key = [2], w_value = []\<rparr>,
      \<lparr>w_type = BatchOther, w_namespace = ''ns'', w_key = [1], w_value = [33]\<rparr>,
      \<lparr>w_type = BatchPut, w_namespace = ''ns'', w_key = [1], w_value = [22]\<rparr>]
   = [\<lparr>w_type = BatchDelete, w_namespace = ''ns'', w_key = [2], w_value = []\<rparr>,
      \<lparr>w_type = BatchPut, w_namespace = ''ns'', w_key = [1], w_value = [22]\<rparr>]"
  by (simp add: survivors_def participates_def pair_of_def upt_rec)

subsection \<open>Every attempt of a mutating operation\<close>

lemma apply_in_order_no_sys: "apply_in_order ws t \<noteq> Inl (Sys en)"
  by (induction ws arbitrary: t) (auto simp: apply_write_no_sys split: sum.splits)

lemma tx_of_no_sys: "tx_of NotExist m t \<noteq> Inl (Sys en)"
  by (cases m)
     (simp_all add: Put_tx_no_sys Delete_tx_no_sys apply_in_order_no_sys Insert_tx_no_sys
        Remove_tx_no_sys Purge_tx_no_sys)

lemma WriteBatch_run:
  "IsReady b \<Longrightarrow> WriteBatch b kvsb = run_retries b (apply_in_order (survivors kvsb))"
proof -
  assume r: "IsReady b"
  have "write_loop (rev (survivors kvsb)) (length (rev (survivors kvsb)))
          = apply_in_order (survivors kvsb)"
    by (rule ext) (simp add: write_loop_eq)
  with r show ?thesis by (simp add: WriteBatch_def scan_entries_survivors)
qed

lemma exec_run: "IsReady b \<Longrightarrow> exec NotExist b m = run_retries b (tx_of NotExist m)"
  by (cases m)
     (simp_all add: Put_def Delete_def WriteBatch_run Insert_def Remove_def Purge_def)

lemma first_through:
  assumes "k \<le> length xs" "\<forall>i < k. xs ! i \<noteq> None" "k < length xs \<longrightarrow> xs ! k = None"
  shows "length (takeWhile (\<lambda>x. x \<noteq> None) xs) = k"
  using assms
proof (induction xs arbitrary: k)
  case Nil
  then show ?case by simp
next
  case (Cons x xs)
  show ?case
  proof (cases k)
    case 0
    with Cons.prems show ?thesis by simp
  next
    case (Suc j)
    with Cons.prems have x: "x \<noteq> None" by auto
    from Cons.prems Suc have "j \<le> length xs" "\<forall>i < j. xs ! i \<noteq> None"
      "j < length xs \<longrightarrow> xs ! j = None" by auto
    then have "length (takeWhile (\<lambda>x. x \<noteq> None) xs) = j" by (rule Cons.IH)
    with x Suc show ?thesis by simp
  qed
qed

lemma none_through:
  assumes "n \<le> length xs" "\<forall>i < n. xs ! i \<noteq> None"
  shows "n \<le> length (takeWhile (\<lambda>x. x \<noteq> None) xs)"
  using assms
proof (induction xs arbitrary: n)
  case Nil
  then show ?case by simp
next
  case (Cons x xs)
  show ?case
  proof (cases n)
    case 0
    then show ?thesis by simp
  next
    case (Suc j)
    with Cons.prems have x: "x \<noteq> None" by auto
    from Cons.prems Suc have "j \<le> length xs" "\<forall>i < j. xs ! i \<noteq> None" by auto
    then have "j \<le> length (takeWhile (\<lambda>x. x \<noteq> None) xs)" by (rule Cons.IH)
    with x Suc show ?thesis by simp
  qed
qed

lemma run_retries_none: "NumRetries b = 0 \<Longrightarrow> run_retries b fn = (Return None, b)"
  by (simp add: run_retries_def finish_def)

lemma run_retries_body_fails:
  assumes "fn (db b) = Inl e" "e \<noteq> Sys ENOSPC" "NumRetries b \<noteq> 0"
  shows "run_retries b fn = (Return (Some ErrIO), b)"
proof -
  from assms(3) have "unat (NumRetries b) \<noteq> 0" by (simp add: unat_eq_zero)
  with assms show ?thesis
    by (simp add: run_retries_def retry_body_fails [where fn = fn and b = b and e = e] finish_def)
qed

lemma run_retries_first_through:
  assumes "fn (db b) = Inr t" "k < unat (NumRetries b)" "k \<le> length (pending b)"
    "\<forall>i < k. pending b ! i \<noteq> None" "k < length (pending b) \<longrightarrow> pending b ! k = None"
  shows "run_retries b fn = (Return None, b\<lparr>db := t, pending := drop (Suc k) (pending b)\<rparr>)"
proof -
  have k: "length (takeWhile (\<lambda>x. x \<noteq> None) (pending b)) = k"
    using assms(3,4,5) by (rule first_through)
  note r = retry_body_ok [where fn = fn and b = b and t = t and n = "unat (NumRetries b)"
      and err = None, OF assms(1), unfolded k]
  from assms(2) show ?thesis by (simp add: run_retries_def r finish_def)
qed

lemma run_retries_all_fail:
  assumes "fn (db b) = Inr t" "0 < unat (NumRetries b)" "unat (NumRetries b) \<le> length (pending b)"
    "\<forall>i < unat (NumRetries b). pending b ! i \<noteq> None"
  shows "run_retries b fn =
           (if pending b ! (unat (NumRetries b) - 1) = Some ENOSPC then Fatal
            else Return (Some ErrIO),
            b\<lparr>pending := drop (unat (NumRetries b)) (pending b)\<rparr>)"
proof -
  let ?n = "unat (NumRetries b)"
  have le: "?n \<le> length (takeWhile (\<lambda>x. x \<noteq> None) (pending b))"
    using assms(3,4) by (rule none_through)
  from assms(2) have "?n - 1 < ?n" by simp
  with assms(4) have "pending b ! (?n - 1) \<noteq> None" by blast
  then obtain en where en: "pending b ! (?n - 1) = Some en" by auto
  note r = retry_body_ok [where fn = fn and b = b and t = t, OF assms(1)]
  from le assms(2) en show ?thesis
    by (auto simp: run_retries_def r finish_def)
qed

lemma Delete_empty_name:
  "fst (Delete \<lparr>ready = True, NumRetries = 3, db = Map.empty, pending = []\<rparr> [] None)
     = Return (Some ErrIO)
   \<and> fst (Delete \<lparr>ready = True, NumRetries = 3, db = [''ns'' \<mapsto> []], pending = []\<rparr> [] None)
     = Return None"
  by (simp add: Delete_def IsReady_def run_retries_def retry_numeral Update_def Delete_tx_def
        DeleteBucket_def finish_def)

section \<open>WriteBatch keeps the last write of every key\<close>

text \<open>
  C1: the coalescing pass of WriteBatch, scanning from the highest index down to 0,
  keeps for every pair of namespace and key the operation it meets first, which is the
  last write of that pair in the batch, and drops the earlier ones; only Put and Delete
  take part and every other kind is skipped; the transaction then applies the
  operations kept in their order in the batch.
\<close>

theorem WriteBatch_last_writes:
  assumes "IsReady b"
  shows "scan_entries kvsb (Size kvsb) {} [] = Inr (rev (survivors kvsb))
       \<and> WriteBatch b kvsb = run_retries b (apply_in_order (survivors kvsb))"
proof -
  have "write_loop (rev (survivors kvsb)) (length (rev (survivors kvsb)))
          = apply_in_order (survivors kvsb)"
    by (rule ext) (simp add: write_loop_eq)
  with assms show ?thesis
    by (simp add: WriteBatch_def scan_entries_survivors)
qed

theorem WriteBatch_last_writes_witness:
  "IsReady \<lparr>ready = True, NumRetries = 3, db = [''ns'' \<mapsto> [([1], [7]), ([2], [8])]], pending = []\<rparr>
   \<and> Get \<lparr>ready = True, NumRetries = 3, db = [''ns'' \<mapsto> [([1], [7]), ([2], [8])]], pending = []\<rparr>
        ''ns'' [1] = Inr [7]
   \<and> fst (WriteBatch
        \<lparr>ready = True, NumRetries = 3, db = [''ns'' \<mapsto> [([1], [7]), ([2], [8])]], pending = []\<rparr>
        [\<lparr>w_type = BatchPut, w_namespace = ''ns'', w_key = [1], w_value = [11]\<rparr>,
         \<lparr>w_type = BatchDelete, w_namespace = ''ns'', w_key = [2], w_value = []\<rparr>,
         \<lparr>w_type = BatchOther, w_namespace = ''ns'', w_key = [1], w_value = [33]\<rparr>,
         \<lparr>w_type = BatchPut, w_namespace = ''ns'', w_key = [1], w_value = [22]\<rparr>]) = Return None
   \<and> db (snd (WriteBatch
        \<lparr>ready = True, NumRetries = 3, db = [''ns'' \<mapsto> [([1], [7]), ([2], [8])]], pending = []\<rparr>
        [\<lparr>w_type = BatchPut, w_namespace = ''ns'', w_key = [1], w_value = [11]\<rparr>,
         \<lparr>w_type = BatchDelete, w_namespace = ''ns'', w_key = [2], w_value = []\<rparr>,
         \<lparr>w_type = BatchOther, w_namespace = ''ns'', w_key = [1], w_value = [33]\<rparr>,
         \<lparr>w_type = BatchPut, w_namespace = ''ns'', w_key = [1], w_value = [22]\<rparr>])) ''ns''
       = Some [([1], [22])]"
proof -
  let ?b = "\<lparr>ready = True, NumRetries = 3, db = [''ns'' \<mapsto> [([1], [7]), ([2], [8 :: 8 word])]],
             pending = []\<rparr>"
  let ?kvsb = "[\<lparr>w_type = BatchPut, w_namespace = ''ns'', w_key = [1], w_value = [11]\<rparr>,
         \<lparr>w_type = BatchDelete, w_namespace = ''ns'', w_key = [2], w_value = []\<rparr>,
         \<lparr>w_type = BatchOther, w_namespace = ''ns'', w_key = [1], w_value = [33]\<rparr>,
         \<lparr>w_type = BatchPut, w_namespace = ''ns'', w_key = [1], w_value = [22]\<rparr>]"
  have r: "IsReady ?b" by (simp add: IsReady_def)
  have g: "Get ?b ''ns'' [1] = Inr [7]"
    by (simp add: Get_def IsReady_def View_def Get_tx_def Bucket_def bucket_Get_def)
  have "WriteBatch ?b ?kvsb = run_retries ?b (apply_in_order (survivors ?kvsb))"
    by (rule conjunct2 [OF WriteBatch_last_writes [OF r]])
  then have "WriteBatch ?b ?kvsb = (Return None, ?b\<lparr>db := [''ns'' \<mapsto> [([1], [22])]]\<rparr>)"
    by (simp add: survivors_example run_retries_def retry_numeral Update_def finish_def
          apply_write_def Bucket_def bucket_Delete_def CreateBucketIfNotExists_def
          bucket_Put_def MaxKeySize_def MaxValueSize_def)
  with r g show ?thesis by simp
qed

section \<open>Out of space: retried, then fatal\<close>

text \<open>
  C2, as stated: a mutating operation does not retry after an attempt that failed with
  the out-of-space error, and ends the process. It does retry: with three attempts
  configured and the first commit failing with \<open>ENOSPC\<close>, Put makes a second attempt,
  which commits, and returns without an error.
\<close>

theorem Put_retries_after_ENOSPC_counterexample:
  "fst (Update (Put_tx ''ns'' [1] [2])
          \<lparr>ready = True, NumRetries = 3, db = Map.empty, pending = [Some ENOSPC, None]\<rparr>)
     = Some (Sys ENOSPC)
   \<and> fst (Put \<lparr>ready = True, NumRetries = 3, db = Map.empty, pending = [Some ENOSPC, None]\<rparr>
            ''ns'' [1] [2]) = Return None
   \<and> fst (Put \<lparr>ready = True, NumRetries = 3, db = Map.empty, pending = [Some ENOSPC, None]\<rparr>
            ''ns'' [1] [2]) \<noteq> Fatal
   \<and> pending (snd (Put \<lparr>ready = True, NumRetries = 3, db = Map.empty,
                        pending = [Some ENOSPC, None]\<rparr> ''ns'' [1] [2])) = []
   \<and> db (snd (Put \<lparr>ready = True, NumRetries = 3, db = Map.empty,
                   pending = [Some ENOSPC, None]\<rparr> ''ns'' [1] [2])) ''ns'' = Some [([1], [2])]"
  by (simp add: Put_def IsReady_def run_retries_def retry_numeral Update_def Put_tx_def
        CreateBucketIfNotExists_def bucket_Put_def MaxKeySize_def MaxValueSize_def finish_def)

text \<open>
  C2, amended: for every mutating operation (Put, Delete, WriteBatch, Insert, Remove,
  Purge) on a ready engine, an attempt whose commit fails, with the out-of-space error
  or any other, is followed by a further attempt as long as fewer than \<open>NumRetries\<close>
  attempts were made: when \<open>k < NumRetries\<close> commits fail and the next one goes
  through, the operation returns without an error and its writes are committed,
  whatever the \<open>k\<close> failures were. When all \<open>NumRetries\<close> commits fail, the process
  is ended if the last failure is the out-of-space error and the IO error is returned
  otherwise; the process is ended in no other case. An error of the transaction
  function itself is returned as the IO error, and with \<open>NumRetries = 0\<close> nothing is
  attempted.
\<close>

theorem mutation_escalation:
  assumes "IsReady b"
  shows "(NumRetries b = 0 \<longrightarrow> exec NotExist b m = (Return None, b))
       \<and> (\<forall>e. NumRetries b \<noteq> 0 \<and> tx_of NotExist m (db b) = Inl e \<longrightarrow>
             exec NotExist b m = (Return (Some ErrIO), b))
       \<and> (\<forall>t k. tx_of NotExist m (db b) = Inr t \<and> k < unat (NumRetries b)
               \<and> k \<le> length (pending b) \<and> (\<forall>i < k. pending b ! i \<noteq> None)
               \<and> (k < length (pending b) \<longrightarrow> pending b ! k = None) \<longrightarrow>
             exec NotExist b m =
               (Return None, b\<lparr>db := t, pending := drop (Suc k) (pending b)\<rparr>))
       \<and> (\<forall>t. tx_of NotExist m (db b) = Inr t \<and> 0 < unat (NumRetries b)
               \<and> unat (NumRetries b) \<le> length (pending b)
               \<and> (\<forall>i < unat (NumRetries b). pending b ! i \<noteq> None) \<longrightarrow>
             exec NotExist b m =
               (if pending b ! (unat (NumRetries b) - 1) = Some ENOSPC then Fatal
                else Return (Some ErrIO),
                b\<lparr>pending := drop (unat (NumRetries b)) (pending b)\<rparr>))
       \<and> (\<forall>r b'. exec NotExist b m = (r, b') \<longrightarrow>
             (r = Fatal \<longleftrightarrow>
                0 < unat (NumRetries b)
              \<and> unat (NumRetries b) \<le> length (pending b)
              \<and> (\<forall>i < unat (NumRetries b). pending b ! i \<noteq> None)
              \<and> pending b ! (unat (NumRetries b) - 1) = Some ENOSPC
              \<and> pending b' = drop (unat (NumRetries b)) (pending b)))"
proof -
  note e = exec_run [OF assms, of NotExist m]
  have c0: "NumRetries b = 0 \<longrightarrow> exec NotExist b m = (Return None, b)"
    unfolding e by (simp add: run_retries_none)
  have c1: "\<forall>e. NumRetries b \<noteq> 0 \<and> tx_of NotExist m (db b) = Inl e \<longrightarrow>
             exec NotExist b m = (Return (Some ErrIO), b)"
  proof (intro allI impI)
    fix er assume a: "NumRetries b \<noteq> 0 \<and> tx_of NotExist m (db b) = Inl er"
    then have "er \<noteq> Sys ENOSPC" using tx_of_no_sys [of NotExist m "db b" ENOSPC] by auto
    with a show "exec NotExist b m = (Return (Some ErrIO), b)"
      unfolding e by (intro run_retries_body_fails) auto
  qed
  have c2: "\<forall>t k. tx_of NotExist m (db b) = Inr t \<and> k < unat (NumRetries b)
               \<and> k \<le> length (pending b) \<and> (\<forall>i < k. pending b ! i \<noteq> None)
               \<and> (k < length (pending b) \<longrightarrow> pending b ! k = None) \<longrightarrow>
             exec NotExist b m =
               (Return None, b\<lparr>db := t, pending := drop (Suc k) (pending b)\<rparr>)"
  proof (intro allI impI)
    fix t k
    assume a: "tx_of NotExist m (db b) = Inr t \<and> k < unat (NumRetries b)
               \<and> k \<le> length (pending b) \<and> (\<forall>i < k. pending b ! i \<noteq> None)
               \<and> (k < length (pending b) \<longrightarrow> pending b ! k = None)"
    show "exec NotExist b m = (Return None, b\<lparr>db := t, pending := drop (Suc k) (pending b)\<rparr>)"
      unfolding e by (rule run_retries_first_through) (use a in auto)
  qed
  have c3: "\<forall>t. tx_of NotExist m (db b) = Inr t \<and> 0 < unat (NumRetries b)
               \<and> unat (NumRetries b) \<le> length (pending b)
               \<and> (\<forall>i < unat (NumRetries b). pending b ! i \<noteq> None) \<longrightarrow>
             exec NotExist b m =
               (if pending b ! (unat (NumRetries b) - 1) = Some ENOSPC then Fatal
                else Return (Some ErrIO),
                b\<lparr>pending := drop (unat (NumRetries b)) (pending b)\<rparr>)"
  proof (intro allI impI)
    fix t
    assume a: "tx_of NotExist m (db b) = Inr t \<and> 0 < unat (NumRetries b)
               \<and> unat (NumRetries b) \<le> length (pending b)
               \<and> (\<forall>i < unat (NumRetries b). pending b ! i \<noteq> None)"
    show "exec NotExist b m =
               (if pending b ! (unat (NumRetries b) - 1) = Some ENOSPC then Fatal
                else Return (Some ErrIO),
                b\<lparr>pending := drop (unat (NumRetries b)) (pending b)\<rparr>)"
      unfolding e by (rule run_retries_all_fail [where t = t]) (use a in auto)
  qed
  have c4: "\<forall>r b'. exec NotExist b m = (r, b') \<longrightarrow>
             (r = Fatal \<longleftrightarrow>
                0 < unat (NumRetries b)
              \<and> unat (NumRetries b) \<le> length (pending b)
              \<and> (\<forall>i < unat (NumRetries b). pending b ! i \<noteq> None)
              \<and> pending b ! (unat (NumRetries b) - 1) = Some ENOSPC
              \<and> pending b' = drop (unat (NumRetries b)) (pending b))"
  proof (intro allI impI)
    fix r b' assume "exec NotExist b m = (r, b')"
    then have "run_retries b (tx_of NotExist m) = (r, b')" by (simp only: e)
    then show "r = Fatal \<longleftrightarrow>
                0 < unat (NumRetries b)
              \<and> unat (NumRetries b) \<le> length (pending b)
              \<and> (\<forall>i < unat (NumRetries b). pending b ! i \<noteq> None)
              \<and> pending b ! (unat (NumRetries b) - 1) = Some ENOSPC
              \<and> pending b' = drop (unat (NumRetries b)) (pending b)"
      by (rule run_retries_Fatal_iff [OF tx_of_no_sys])
  qed
  from c0 c1 c2 c3 c4 show ?thesis by (intro conjI)
qed

theorem mutation_escalation_witness:
  "IsReady \<lparr>ready = True, NumRetries = 3, db = Map.empty, pending = [Some ENOSPC, None, Some EIO]\<rparr>
   \<and> tx_of [] (MPut ''ns'' [1] [2]) Map.empty = Inr [''ns'' \<mapsto> [([1], [2])]]
   \<and> exec [] \<lparr>ready = True, NumRetries = 3, db = Map.empty,
                pending = [Some ENOSPC, None, Some EIO]\<rparr> (MPut ''ns'' [1] [2])
       = (Return None,
          \<lparr>ready = True, NumRetries = 3, db = [''ns'' \<mapsto> [([1], [2])]], pending = [Some EIO]\<rparr>)
   \<and> IsReady \<lparr>ready = True, NumRetries = 2, db = Map.empty, pending = [Some EIO, Some ENOSPC, None]\<rparr>
   \<and> exec [] \<lparr>ready = True, NumRetries = 2, db = Map.empty,
                pending = [Some EIO, Some ENOSPC, None]\<rparr> (MPut ''ns'' [1] [2])
       = (Fatal, \<lparr>ready = True, NumRetries = 2, db = Map.empty, pending = [None]\<rparr>)
   \<and> exec [] \<lparr>ready = True, NumRetries = 2, db = Map.empty,
                pending = [Some ENOSPC, Some EIO, None]\<rparr> (MPut ''ns'' [1] [2])
       = (Return (Some ErrIO), \<lparr>ready = True, NumRetries = 2, db = Map.empty, pending = [None]\<rparr>)"
proof -
  let ?b = "\<lparr>ready = True, NumRetries = 3, db = Map.empty,
              pending = [Some ENOSPC, None, Some EIO]\<rparr>"
  let ?c = "\<lparr>ready = True, NumRetries = 2, db = Map.empty,
              pending = [Some EIO, Some ENOSPC, None]\<rparr>"
  let ?d = "\<lparr>ready = True, NumRetries = 2, db = Map.empty,
              pending = [Some ENOSPC, Some EIO, None]\<rparr>"
  let ?t = "[''ns'' \<mapsto> [([1], [2])]] :: tx"
  have rb: "IsReady ?b" and rc: "IsReady ?c" and rd: "IsReady ?d" by (simp_all add: IsReady_def)
  have t: "tx_of [] (MPut ''ns'' [1] [2]) Map.empty = Inr ?t"
    by (simp add: Put_tx_def CreateBucketIfNotExists_def bucket_Put_def MaxKeySize_def
          MaxValueSize_def)
  have hb: "tx_of [] (MPut ''ns'' [1] [2]) (db ?b) = Inr ?t \<and> 1 < unat (NumRetries ?b)
      \<and> 1 \<le> length (pending ?b) \<and> (\<forall>i < 1. pending ?b ! i \<noteq> None)
      \<and> (1 < length (pending ?b) \<longrightarrow> pending ?b ! 1 = None)"
    using t by simp
  from mutation_escalation [OF rb, of "[]" "MPut ''ns'' [1] [2]", THEN conjunct2, THEN conjunct2,
      THEN conjunct1, rule_format, OF hb]
  have "exec [] ?b (MPut ''ns'' [1] [2])
          = (Return None, ?b\<lparr>db := ?t, pending := drop (Suc 1) (pending ?b)\<rparr>)"
    .
  then have eb: "exec [] ?b (MPut ''ns'' [1] [2])
          = (Return None, \<lparr>ready = True, NumRetries = 3, db = ?t, pending = [Some EIO]\<rparr>)"
    by simp
  have hc: "tx_of [] (MPut ''ns'' [1] [2]) (db ?c) = Inr ?t \<and> 0 < unat (NumRetries ?c)
      \<and> unat (NumRetries ?c) \<le> length (pending ?c)
      \<and> (\<forall>i < unat (NumRetries ?c). pending ?c ! i \<noteq> None)"
    using t by (auto simp: less_2_cases_iff)
  from mutation_escalation [OF rc, of "[]" "MPut ''ns'' [1] [2]", THEN conjunct2, THEN conjunct2,
      THEN conjunct2, THEN conjunct1, rule_format, OF hc]
  have "exec [] ?c (MPut ''ns'' [1] [2])
          = (if pending ?c ! (unat (NumRetries ?c) - 1) = Some ENOSPC then Fatal
             else Return (Some ErrIO), ?c\<lparr>pending := drop (unat (NumRetries ?c)) (pending ?c)\<rparr>)"
    .
  then have ec: "exec [] ?c (MPut ''ns'' [1] [2])
          = (Fatal, \<lparr>ready = True, NumRetries = 2, db = Map.empty, pending = [None]\<rparr>)"
    by simp
  have hd: "tx_of [] (MPut ''ns'' [1] [2]) (db ?d) = Inr ?t \<and> 0 < unat (NumRetries ?d)
      \<and> unat (NumRetries ?d) \<le> length (pending ?d)
      \<and> (\<forall>i < unat (NumRetries ?d). pending ?d ! i \<noteq> None)"
    using t by (auto simp: less_2_cases_iff)
  from mutation_escalation [OF rd, of "[]" "MPut ''ns'' [1] [2]", THEN conjunct2, THEN conjunct2,
      THEN conjunct2, THEN conjunct1, rule_format, OF hd]
  have "exec [] ?d (MPut ''ns'' [1] [2])
          = (if pending ?d ! (unat (NumRetries ?d) - 1) = Some ENOSPC then Fatal
             else Return (Some ErrIO), ?d\<lparr>pending := drop (unat (NumRetries ?d)) (pending ?d)\<rparr>)"
    .
  then have ed: "exec [] ?d (MPut ''ns'' [1] [2])
          = (Return (Some ErrIO), \<lparr>ready = True, NumRetries = 2, db = Map.empty, pending = [None]\<rparr>)"
    by simp
  from rb rc t eb ec ed show ?thesis by (intro conjI)
qed

section \<open>Insert\<close>

text \<open>
  C3: Insert on an existing index namespace, with the anchor \<open>ak\<close> the encoding of
  \<open>key - 1\<close>. If no stored boundary is at or after the anchor, only the anchor is
  written (with the empty value). If the smallest stored boundary \<open>k\<close> at or after the
  anchor is not the anchor and has the value \<open>v\<close>, the anchor is written with \<open>v\<close> and
  then \<open>k\<close> with the new value. If the anchor is stored, no boundary is written at the
  anchor and the next boundary after it, when there is one, gets the new value.
\<close>

theorem Insert_boundaries:
  assumes "IsReady b" and "NumRetries b \<noteq> 0" and "db b name = Some bkt" and "wf_bucket bkt"
    and "length val \<le> MaxValueSize" and "ak = Uint64ToBytesBigEndian (key - 1)"
  shows "((\<forall>e \<in> set bkt. fst e < ak) \<longrightarrow>
            commits b (Insert b name key val) ((db b)(name \<mapsto> upsert bkt ak [])))
       \<and> (\<forall>k v. (k, v) \<in> set bkt \<and> ak < k \<and> (\<forall>e \<in> set bkt. ak \<le> fst e \<longrightarrow> k \<le> fst e) \<longrightarrow>
            commits b (Insert b name key val) ((db b)(name \<mapsto> upsert (upsert bkt ak v) k val)))
       \<and> (\<forall>v k' v'. (ak, v) \<in> set bkt \<and> (k', v') \<in> set bkt \<and> ak < k'
              \<and> (\<forall>e \<in> set bkt. ak < fst e \<longrightarrow> k' \<le> fst e) \<longrightarrow>
            commits b (Insert b name key val) ((db b)(name \<mapsto> upsert bkt k' val)))
       \<and> (\<forall>v. (ak, v) \<in> set bkt \<and> (\<forall>e \<in> set bkt. fst e \<le> ak) \<longrightarrow>
            commits b (Insert b name key val) (db b))"
proof -
  have c: "commits b (Insert b name key val) ((db b)(name \<mapsto> inserted bkt ak val))"
    using assms by (simp add: Insert_def run_retries_commits Insert_tx_eq)
  from assms(3) have same: "(db b)(name \<mapsto> bkt) = db b" by auto
  note wf = assms(4)
  show ?thesis
  proof (intro conjI allI impI)
    assume "\<forall>e \<in> set bkt. fst e < ak"
    then have "inserted bkt ak val = upsert bkt ak []" by (rule inserted_cases(1) [OF wf])
    with c show "commits b (Insert b name key val) ((db b)(name \<mapsto> upsert bkt ak []))"
      by simp
  next
    fix k v
    assume a: "(k, v) \<in> set bkt \<and> ak < k \<and> (\<forall>e \<in> set bkt. ak \<le> fst e \<longrightarrow> k \<le> fst e)"
    have "inserted bkt ak val = upsert (upsert bkt ak v) k val"
      by (rule inserted_cases(2) [OF wf]) (use a in auto)
    with c show "commits b (Insert b name key val)
        ((db b)(name \<mapsto> upsert (upsert bkt ak v) k val))" by simp
  next
    fix v k' v'
    assume a: "(ak, v) \<in> set bkt \<and> (k', v') \<in> set bkt \<and> ak < k'
              \<and> (\<forall>e \<in> set bkt. ak < fst e \<longrightarrow> k' \<le> fst e)"
    have "inserted bkt ak val = upsert bkt k' val"
      by (rule inserted_cases(3) [OF wf, where v = v and v' = v']) (use a in auto)
    with c show "commits b (Insert b name key val) ((db b)(name \<mapsto> upsert bkt k' val))" by simp
  next
    fix v
    assume a: "(ak, v) \<in> set bkt \<and> (\<forall>e \<in> set bkt. fst e \<le> ak)"
    have "inserted bkt ak val = bkt"
      by (rule inserted_cases(4) [OF wf, where v = v]) (use a in auto)
    with c same show "commits b (Insert b name key val) (db b)" by simp
  qed
qed

theorem Insert_boundaries_witness:
  "IsReady \<lparr>ready = True, NumRetries = 3,
            db = [''idx'' \<mapsto> [([0, 0, 0, 0, 0, 0, 0, 9], [1]), ([0, 0, 0, 0, 0, 0, 0, 20], [2])]],
            pending = []\<rparr>
   \<and> wf_bucket [([0, 0, 0, 0, 0, 0, 0, 9], [1]), ([0, 0, 0, 0, 0, 0, 0, 20], [2])]
   \<and> fst (Insert \<lparr>ready = True, NumRetries = 3,
            db = [''idx'' \<mapsto> [([0, 0, 0, 0, 0, 0, 0, 9], [1]), ([0, 0, 0, 0, 0, 0, 0, 20], [2])]],
            pending = []\<rparr> ''idx'' 15 [7]) = Return None
   \<and> db (snd (Insert \<lparr>ready = True, NumRetries = 3,
            db = [''idx'' \<mapsto> [([0, 0, 0, 0, 0, 0, 0, 9], [1]), ([0, 0, 0, 0, 0, 0, 0, 20], [2])]],
            pending = []\<rparr> ''idx'' 15 [7])) ''idx''
       = Some [([0, 0, 0, 0, 0, 0, 0, 9], [1]), ([0, 0, 0, 0, 0, 0, 0, 14], [2]),
               ([0, 0, 0, 0, 0, 0, 0, 20], [7])]"
proof -
  let ?bkt = "[([0, 0, 0, 0, 0, 0, 0, 9], [1]), ([0, 0, 0, 0, 0, 0, 0, 20], [2])] :: bucket"
  let ?b = "\<lparr>ready = True, NumRetries = 3, db = [''idx'' \<mapsto> ?bkt], pending = []\<rparr>"
  let ?ak = "[0, 0, 0, 0, 0, 0, 0, 14] :: bytes"
  have r: "IsReady ?b" by (simp add: IsReady_def)
  have n: "NumRetries ?b \<noteq> 0" by simp
  have d: "db ?b ''idx'' = Some ?bkt" by simp
  have wf: "wf_bucket ?bkt" by (simp add: wf_bucket_def MaxKeySize_def MaxValueSize_def)
  have v: "length [7 :: 8 word] \<le> MaxValueSize" by (simp add: MaxValueSize_def)
  have ak: "?ak = Uint64ToBytesBigEndian (15 - 1)" by (simp only: enc_14)
  have h: "([0, 0, 0, 0, 0, 0, 0, 20], [2]) \<in> set ?bkt \<and> ?ak < [0, 0, 0, 0, 0, 0, 0, 20]
           \<and> (\<forall>e \<in> set ?bkt. ?ak \<le> fst e \<longrightarrow> [0, 0, 0, 0, 0, 0, 0, 20] \<le> fst e)"
    by simp
  from Insert_boundaries [OF r n d wf v ak] h
  have "commits ?b (Insert ?b ''idx'' 15 [7])
          ((db ?b)(''idx'' \<mapsto> upsert (upsert ?bkt ?ak [2]) [0, 0, 0, 0, 0, 0, 0, 20] [7]))"
    by blast
  then have "Insert ?b ''idx'' 15 [7] =
      (Return None, ?b\<lparr>db := (db ?b)(''idx'' \<mapsto> upsert (upsert ?bkt ?ak [2]) [0, 0, 0, 0, 0, 0, 0, 20] [7])\<rparr>)"
    by (simp add: commits_def)
  then show ?thesis using r wf by simp
qed

section \<open>Remove\<close>

text \<open>
  C4, as stated: Remove deletes the boundary stored at the anchor and writes its value
  onto the next boundary, so that the value of the interval the anchor closed is never
  lost. It is lost when no boundary follows the anchor: with the boundaries 49 and 99,
  Remove with key 100 deletes the boundary 99 and its value \<open>[5]\<close> is stored nowhere
  afterwards.
\<close>

theorem Remove_last_boundary_counterexample:
  "db \<lparr>ready = True, NumRetries = 3,
        db = [''idx'' \<mapsto> [([0, 0, 0, 0, 0, 0, 0, 49], [4]), ([0, 0, 0, 0, 0, 0, 0, 99], [5])]],
        pending = []\<rparr> ''idx''
     = Some [([0, 0, 0, 0, 0, 0, 0, 49], [4]), (Uint64ToBytesBigEndian (100 - 1), [5])]
   \<and> fst (Remove \<lparr>ready = True, NumRetries = 3,
        db = [''idx'' \<mapsto> [([0, 0, 0, 0, 0, 0, 0, 49], [4]), ([0, 0, 0, 0, 0, 0, 0, 99], [5])]],
        pending = []\<rparr> ''idx'' 100) = Return None
   \<and> db (snd (Remove \<lparr>ready = True, NumRetries = 3,
        db = [''idx'' \<mapsto> [([0, 0, 0, 0, 0, 0, 0, 49], [4]), ([0, 0, 0, 0, 0, 0, 0, 99], [5])]],
        pending = []\<rparr> ''idx'' 100)) ''idx''
       = Some [([0, 0, 0, 0, 0, 0, 0, 49], [4])]
   \<and> [5] \<notin> snd ` set [([0, 0, 0, 0, 0, 0, 0, 49], [4 :: 8 word]) :: entry]"
proof -
  let ?bkt = "[([0, 0, 0, 0, 0, 0, 0, 49], [4]), ([0, 0, 0, 0, 0, 0, 0, 99], [5])] :: bucket"
  let ?b = "\<lparr>ready = True, NumRetries = 3, db = [''idx'' \<mapsto> ?bkt], pending = []\<rparr>"
  have wf: "wf_bucket ?bkt" by (simp add: wf_bucket_def MaxKeySize_def MaxValueSize_def)
  have d: "db ?b ''idx'' = Some ?bkt" by simp
  have n: "NumRetries ?b \<noteq> 0" by simp
  have "Remove_tx ''idx'' 100 (db ?b)
          = Inr ((db ?b)(''idx'' \<mapsto> removed ?bkt (Uint64ToBytesBigEndian (100 - 1))))"
    by (rule Remove_tx_eq [where t = "db ?b", OF d wf])
  from run_retries_commits [where fn = "Remove_tx ''idx'' 100" and b = ?b, OF this n]
  have "Remove ?b ''idx'' 100
          = (Return None,
             ?b\<lparr>db := (db ?b)(''idx'' \<mapsto> removed ?bkt (Uint64ToBytesBigEndian (100 - 1)))\<rparr>)"
    by (simp add: commits_def Remove_def IsReady_def)
  then show ?thesis by (simp add: Uint64ToBytesBigEndian_def removed_def)
qed

text \<open>
  C4, amended: Remove on an existing index namespace, with the anchor \<open>ak\<close> the encoding
  of \<open>key - 1\<close>. If a boundary is stored at the anchor with the value \<open>v\<close>, it is
  deleted; when a boundary follows the anchor, \<open>v\<close> is written onto the next one, and
  when none follows, the anchor is only deleted and \<open>v\<close> is written nowhere. If no
  boundary is stored at the anchor, nothing changes and the call returns without an
  error.
\<close>

theorem Remove_boundary:
  assumes "IsReady b" and "NumRetries b \<noteq> 0" and "db b name = Some bkt" and "wf_bucket bkt"
    and "ak = Uint64ToBytesBigEndian (key - 1)"
  shows "(\<forall>v k' v'. (ak, v) \<in> set bkt \<and> (k', v') \<in> set bkt \<and> ak < k'
              \<and> (\<forall>e \<in> set bkt. ak < fst e \<longrightarrow> k' \<le> fst e) \<longrightarrow>
            commits b (Remove b name key)
              ((db b)(name \<mapsto> upsert (filter (\<lambda>e. fst e \<noteq> ak) bkt) k' v)))
       \<and> (\<forall>v. (ak, v) \<in> set bkt \<and> (\<forall>e \<in> set bkt. fst e \<le> ak) \<longrightarrow>
            commits b (Remove b name key) ((db b)(name \<mapsto> filter (\<lambda>e. fst e \<noteq> ak) bkt)))
       \<and> (ak \<notin> fst ` set bkt \<longrightarrow> commits b (Remove b name key) (db b))"
proof -
  have c: "commits b (Remove b name key) ((db b)(name \<mapsto> removed bkt ak))"
    using assms by (simp add: Remove_def run_retries_commits Remove_tx_eq)
  from assms(3) have same: "(db b)(name \<mapsto> bkt) = db b" by auto
  note wf = assms(4)
  show ?thesis
  proof (intro conjI allI impI)
    fix v k' v'
    assume a: "(ak, v) \<in> set bkt \<and> (k', v') \<in> set bkt \<and> ak < k'
              \<and> (\<forall>e \<in> set bkt. ak < fst e \<longrightarrow> k' \<le> fst e)"
    have "removed bkt ak = upsert (filter (\<lambda>e. fst e \<noteq> ak) bkt) k' v"
      by (rule removed_cases(1) [OF wf, where v' = v']) (use a in auto)
    with c show "commits b (Remove b name key)
        ((db b)(name \<mapsto> upsert (filter (\<lambda>e. fst e \<noteq> ak) bkt) k' v))" by simp
  next
    fix v
    assume a: "(ak, v) \<in> set bkt \<and> (\<forall>e \<in> set bkt. fst e \<le> ak)"
    have "removed bkt ak = filter (\<lambda>e. fst e \<noteq> ak) bkt"
      by (rule removed_cases(2) [OF wf, where v = v]) (use a in auto)
    with c show "commits b (Remove b name key)
        ((db b)(name \<mapsto> filter (\<lambda>e. fst e \<noteq> ak) bkt))" by simp
  next
    assume "ak \<notin> fst ` set bkt"
    then have "removed bkt ak = bkt" by (rule removed_cases(3) [OF wf])
    with c same show "commits b (Remove b name key) (db b)" by simp
  qed
qed

theorem Remove_boundary_witness:
  "IsReady \<lparr>ready = True, NumRetries = 3,
            db = [''idx'' \<mapsto> [([0, 0, 0, 0, 0, 0, 0, 99], [5]), ([0, 0, 0, 0, 0, 0, 0, 200], [6])]],
            pending = []\<rparr>
   \<and> wf_bucket [([0, 0, 0, 0, 0, 0, 0, 99], [5]), ([0, 0, 0, 0, 0, 0, 0, 200], [6])]
   \<and> fst (Remove \<lparr>ready = True, NumRetries = 3,
            db = [''idx'' \<mapsto> [([0, 0, 0, 0, 0, 0, 0, 99], [5]), ([0, 0, 0, 0, 0, 0, 0, 200], [6])]],
            pending = []\<rparr> ''idx'' 100) = Return None
   \<and> db (snd (Remove \<lparr>ready = True, NumRetries = 3,
            db = [''idx'' \<mapsto> [([0, 0, 0, 0, 0, 0, 0, 99], [5]), ([0, 0, 0, 0, 0, 0, 0, 200], [6])]],
            pending = []\<rparr> ''idx'' 100)) ''idx''
       = Some [([0, 0, 0, 0, 0, 0, 0, 200], [5])]"
proof -
  let ?bkt = "[([0, 0, 0, 0, 0, 0, 0, 99], [5]), ([0, 0, 0, 0, 0, 0, 0, 200], [6])] :: bucket"
  let ?b = "\<lparr>ready = True, NumRetries = 3, db = [''idx'' \<mapsto> ?bkt], pending = []\<rparr>"
  let ?ak = "[0, 0, 0, 0, 0, 0, 0, 99] :: bytes"
  have r: "IsReady ?b" by (simp add: IsReady_def)
  have n: "NumRetries ?b \<noteq> 0" by simp
  have d: "db ?b ''idx'' = Some ?bkt" by simp
  have wf: "wf_bucket ?bkt" by (simp add: wf_bucket_def MaxKeySize_def MaxValueSize_def)
  have ak: "?ak = Uint64ToBytesBigEndian (100 - 1)" by (simp only: enc_99)
  have h: "(?ak, [5]) \<in> set ?bkt \<and> ([0, 0, 0, 0, 0, 0, 0, 200], [6]) \<in> set ?bkt
           \<and> ?ak < [0, 0, 0, 0, 0, 0, 0, 200]
           \<and> (\<forall>e \<in> set ?bkt. ?ak < fst e \<longrightarrow> [0, 0, 0, 0, 0, 0, 0, 200] \<le> fst e)"
    by simp
  from Remove_boundary [OF r n d wf ak] h
  have "commits ?b (Remove ?b ''idx'' 100)
          ((db ?b)(''idx'' \<mapsto> upsert (filter (\<lambda>e. fst e \<noteq> ?ak) ?bkt) [0, 0, 0, 0, 0, 0, 0, 200] [5]))"
    by blast
  then have "Remove ?b ''idx'' 100 =
      (Return None, ?b\<lparr>db := (db ?b)(''idx'' \<mapsto>
          upsert (filter (\<lambda>e. fst e \<noteq> ?ak) ?bkt) [0, 0, 0, 0, 0, 0, 0, 200] [5])\<rparr>)"
    by (simp add: commits_def)
  then show ?thesis using r wf by simp
qed

section \<open>Purge\<close>

text \<open>
  C5: Purge on an existing index namespace deletes every boundary before the smallest
  boundary at or after the key, which are the boundaries below the key; the first
  boundary left, when there is one, gets the marker \<open>NotExist\<close> as its value, and the
  boundaries after it keep their keys and values.
\<close>

theorem Purge_boundaries:
  assumes "IsReady b" and "NumRetries b \<noteq> 0" and "db b name = Some bkt" and "wf_bucket bkt"
    and "length NotExist \<le> MaxValueSize"
  shows "commits b (Purge NotExist b name key)
           ((db b)(name \<mapsto>
              (case filter (\<lambda>e. Uint64ToBytesBigEndian key \<le> fst e) bkt of
                 [] \<Rightarrow> []
               | e # rest \<Rightarrow> (fst e, NotExist) # rest)))"
  using assms by (simp add: Purge_def run_retries_commits Purge_tx_eq purged_def)

theorem Purge_boundaries_witness:
  "IsReady \<lparr>ready = True, NumRetries = 3,
            db = [''idx'' \<mapsto> [([0, 0, 0, 0, 0, 0, 0, 49], [5]), ([0, 0, 0, 0, 0, 0, 0, 99], [6]),
                              ([0, 0, 0, 0, 0, 0, 0, 150], [7]), ([0, 0, 0, 0, 0, 0, 0, 200], [8])]],
            pending = []\<rparr>
   \<and> fst (Purge [110, 111] \<lparr>ready = True, NumRetries = 3,
            db = [''idx'' \<mapsto> [([0, 0, 0, 0, 0, 0, 0, 49], [5]), ([0, 0, 0, 0, 0, 0, 0, 99], [6]),
                              ([0, 0, 0, 0, 0, 0, 0, 150], [7]), ([0, 0, 0, 0, 0, 0, 0, 200], [8])]],
            pending = []\<rparr> ''idx'' 100) = Return None
   \<and> db (snd (Purge [110, 111] \<lparr>ready = True, NumRetries = 3,
            db = [''idx'' \<mapsto> [([0, 0, 0, 0, 0, 0, 0, 49], [5]), ([0, 0, 0, 0, 0, 0, 0, 99], [6]),
                              ([0, 0, 0, 0, 0, 0, 0, 150], [7]), ([0, 0, 0, 0, 0, 0, 0, 200], [8])]],
            pending = []\<rparr> ''idx'' 100)) ''idx''
       = Some [([0, 0, 0, 0, 0, 0, 0, 150], [110, 111]), ([0, 0, 0, 0, 0, 0, 0, 200], [8])]"
proof -
  let ?bkt = "[([0, 0, 0, 0, 0, 0, 0, 49], [5]), ([0, 0, 0, 0, 0, 0, 0, 99], [6]),
               ([0, 0, 0, 0, 0, 0, 0, 150], [7]), ([0, 0, 0, 0, 0, 0, 0, 200], [8])] :: bucket"
  let ?b = "\<lparr>ready = True, NumRetries = 3, db = [''idx'' \<mapsto> ?bkt], pending = []\<rparr>"
  have r: "IsReady ?b" by (simp add: IsReady_def)
  have n: "NumRetries ?b \<noteq> 0" by simp
  have d: "db ?b ''idx'' = Some ?bkt" by simp
  have wf: "wf_bucket ?bkt" by (simp add: wf_bucket_def MaxKeySize_def MaxValueSize_def)
  have ne: "length [110, 111 :: 8 word] \<le> MaxValueSize" by (simp add: MaxValueSize_def)
  from Purge_boundaries [OF r n d wf ne, of 100]
  have "Purge [110, 111] ?b ''idx'' 100 =
      (Return None, ?b\<lparr>db := (db ?b)(''idx'' \<mapsto>
         (case filter (\<lambda>e. Uint64ToBytesBigEndian 100 \<le> fst e) ?bkt of
                 [] \<Rightarrow> []
               | e # rest \<Rightarrow> (fst e, [110, 111]) # rest))\<rparr>)"
    by (simp add: commits_def)
  then show ?thesis using r by (simp add: enc_100)
qed

section \<open>Get and the two kinds of absence\<close>

text \<open>
  C6, as stated: Get on a namespace that does not exist fails with BucketNotExist.
  It does not: on a ready engine without the namespace \<open>''ns''\<close> the failure is
  NotExist.
\<close>

theorem Get_missing_bucket_counterexample:
  "db \<lparr>ready = True, NumRetries = 3, db = Map.empty, pending = []\<rparr> ''ns'' = None
   \<and> Get \<lparr>ready = True, NumRetries = 3, db = Map.empty, pending = []\<rparr> ''ns'' [1]
       = Inl ErrNotExist
   \<and> Get \<lparr>ready = True, NumRetries = 3, db = Map.empty, pending = []\<rparr> ''ns'' [1]
       \<noteq> Inl ErrBucketNotExist"
  by (simp add: Get_def IsReady_def View_def Get_tx_def Bucket_def)

text \<open>
  C6, amended: on a ready engine Get fails with NotExist both when the namespace does
  not exist and when the namespace exists without an entry for the key, so the two
  absence conditions have the same error kind; when the key has an entry, its value
  is returned.
\<close>

theorem Get_absence:
  assumes "IsReady b"
  shows "(db b ns = None \<longrightarrow> Get b ns key = Inl ErrNotExist)
       \<and> (\<forall>bkt. db b ns = Some bkt \<longrightarrow>
            (key \<notin> fst ` set bkt \<longrightarrow> Get b ns key = Inl ErrNotExist)
          \<and> (\<forall>v. map_of bkt key = Some v \<longrightarrow> Get b ns key = Inr v))"
  using assms
  by (force simp: Get_def View_def Get_tx_def Bucket_def bucket_Get_def map_of_eq_None_iff
            split: option.splits dest: map_of_SomeD)

theorem Get_absence_witness:
  "IsReady \<lparr>ready = True, NumRetries = 3, db = [''ns'' \<mapsto> [([1], [7])]], pending = []\<rparr>
   \<and> Get \<lparr>ready = True, NumRetries = 3, db = [''ns'' \<mapsto> [([1], [7])]], pending = []\<rparr>
        ''other'' [1] = Inl ErrNotExist
   \<and> Get \<lparr>ready = True, NumRetries = 3, db = [''ns'' \<mapsto> [([1], [7])]], pending = []\<rparr>
        ''ns'' [2] = Inl ErrNotExist
   \<and> Get \<lparr>ready = True, NumRetries = 3, db = [''ns'' \<mapsto> [([1], [7])]], pending = []\<rparr>
        ''ns'' [1] = Inr [7]"
proof -
  let ?b = "\<lparr>ready = True, NumRetries = 3, db = [''ns'' \<mapsto> [([1], [7::8 word])]],
             pending = []\<rparr>"
  have r: "IsReady ?b" by (simp add: IsReady_def)
  have "Get ?b ''other'' [1] = Inl ErrNotExist"
    using Get_absence [OF r, of "''other''" "[1]"] by simp
  moreover have "Get ?b ''ns'' [2] = Inl ErrNotExist"
    using Get_absence [OF r, of "''ns''" "[2]"] by simp
  moreover have "Get ?b ''ns'' [1] = Inr [7]"
    using Get_absence [OF r, of "''ns''" "[1]"] by simp
  ultimately show ?thesis using r by simp
qed

section \<open>Filter\<close>

text \<open>
  C7: Filter on a ready engine fails with BucketNotExist when the namespace does not
  exist. Otherwise it visits the keys in ascending order from the first key not below
  \<open>minKey\<close> (from the first key when \<open>minKey\<close> is empty), stops at the first key
  above \<open>maxKey\<close> (when \<open>maxKey\<close> is not empty; a key equal to it is visited), returns
  the visited pairs that satisfy the predicate in that order, and fails with NotExist
  when there is none. On a sorted bucket these are the entries with
  \<open>minKey \<le> k \<le> maxKey\<close> that satisfy the predicate.
\<close>

theorem Filter_scan:
  assumes "IsReady b"
  shows "(db b ns = None \<longrightarrow> Filter b ns cond minKey maxKey = Inl ErrBucketNotExist)
       \<and> (\<forall>bkt. db b ns = Some bkt \<longrightarrow>
            Filter b ns cond minKey maxKey =
              (if scanned bkt cond minKey maxKey = [] then Inl ErrNotExist
               else Inr (map fst (scanned bkt cond minKey maxKey),
                         map snd (scanned bkt cond minKey maxKey)))
          \<and> (wf_bucket bkt \<longrightarrow>
               scanned bkt cond minKey maxKey =
                 filter (\<lambda>e. minKey \<le> fst e \<and> (maxKey = [] \<or> fst e \<le> maxKey)
                             \<and> cond (fst e) (snd e)) bkt))"
proof (intro conjI allI impI)
  assume "db b ns = None"
  with assms show "Filter b ns cond minKey maxKey = Inl ErrBucketNotExist"
    by (simp add: Filter_def View_def Filter_tx_def Bucket_def)
next
  fix bkt assume "db b ns = Some bkt"
  from Filter_tx_eq [where t = "db b", OF this] assms
  show "Filter b ns cond minKey maxKey =
              (if scanned bkt cond minKey maxKey = [] then Inl ErrNotExist
               else Inr (map fst (scanned bkt cond minKey maxKey),
                         map snd (scanned bkt cond minKey maxKey)))"
    by (simp add: Filter_def View_def)
next
  fix bkt assume "wf_bucket bkt"
  then show "scanned bkt cond minKey maxKey =
                 filter (\<lambda>e. minKey \<le> fst e \<and> (maxKey = [] \<or> fst e \<le> maxKey)
                             \<and> cond (fst e) (snd e)) bkt"
    by (rule scanned_sorted)
qed

theorem Filter_scan_witness:
  "IsReady \<lparr>ready = True, NumRetries = 3,
            db = [''ns'' \<mapsto> [([1], [10]), ([2], [20]), ([3], [30]), ([4], [40])]],
            pending = []\<rparr>
   \<and> Filter \<lparr>ready = True, NumRetries = 3,
            db = [''ns'' \<mapsto> [([1], [10]), ([2], [20]), ([3], [30]), ([4], [40])]],
            pending = []\<rparr> ''ns'' (\<lambda>k v. True) [2] [3]
       = Inr ([[2], [3]], [[20], [30]])
   \<and> Filter \<lparr>ready = True, NumRetries = 3,
            db = [''ns'' \<mapsto> [([1], [10]), ([2], [20]), ([3], [30]), ([4], [40])]],
            pending = []\<rparr> ''ns'' (\<lambda>k v. False) [] []
       = Inl ErrNotExist
   \<and> Filter \<lparr>ready = True, NumRetries = 3,
            db = [''ns'' \<mapsto> [([1], [10]), ([2], [20]), ([3], [30]), ([4], [40])]],
            pending = []\<rparr> ''nonamespace'' (\<lambda>k v. True) [] []
       = Inl ErrBucketNotExist"
proof -
  let ?bkt = "[([1], [10]), ([2], [20]), ([3], [30]), ([4], [40])] :: bucket"
  let ?b = "\<lparr>ready = True, NumRetries = 3, db = [''ns'' \<mapsto> ?bkt], pending = []\<rparr>"
  have r: "IsReady ?b" by (simp add: IsReady_def)
  have wf: "wf_bucket ?bkt" by (simp add: wf_bucket_def MaxKeySize_def MaxValueSize_def)
  have "Filter ?b ''ns'' (\<lambda>k v. True) [2] [3] = Inr ([[2], [3]], [[20], [30]])"
    using Filter_scan [OF r, of "''ns''" "\<lambda>k v. True" "[2]" "[3]"] wf by simp
  moreover have "Filter ?b ''ns'' (\<lambda>k v. False) [] [] = Inl ErrNotExist"
    using Filter_scan [OF r, of "''ns''" "\<lambda>k v. False" "[]" "[]"] wf by simp
  moreover have "Filter ?b ''nonamespace'' (\<lambda>k v. True) [] [] = Inl ErrBucketNotExist"
    using Filter_scan [OF r, of "''nonamespace''" "\<lambda>k v. True" "[]" "[]"] by simp
  ultimately show ?thesis using r by simp
qed

section \<open>Range\<close>

text \<open>
  C8, as stated: when at least \<open>count\<close> entries exist at or after the start key, Range
  returns exactly \<open>count\<close> values, and when fewer remain it fails with NotExist. For
  \<open>count = 0\<close> and no entry at or after the start key the first part asks for the
  empty list of values; Range fails with NotExist. For \<open>count = 2 ^ 64 - 1\<close> and one
  entry from the start key on the second part asks for NotExist; the allocation of the
  result panics, whatever the memory at hand (here \<open>2 ^ 70\<close> bytes).
\<close>

theorem Range_empty_request_counterexample:
  "db \<lparr>ready = True, NumRetries = 3, db = [''ns'' \<mapsto> [([1], [10])]], pending = []\<rparr> ''ns''
     = Some [([1], [10])]
   \<and> (0 :: nat) \<le> length (filter (\<lambda>e. [2] \<le> fst e) [([1], [10 :: 8 word]) :: entry])
   \<and> Range_kv 1180591620717411303424
        \<lparr>ready = True, NumRetries = 3, db = [''ns'' \<mapsto> [([1], [10])]], pending = []\<rparr>
        ''ns'' [2] 0 = Done (Inl ErrNotExist)
   \<and> Range_kv 1180591620717411303424
        \<lparr>ready = True, NumRetries = 3, db = [''ns'' \<mapsto> [([1], [10])]], pending = []\<rparr>
        ''ns'' [2] 0 \<noteq> Done (Inr [])
   \<and> Range_kv 1180591620717411303424
        \<lparr>ready = True, NumRetries = 3, db = [''ns'' \<mapsto> [([1], [10])]], pending = []\<rparr>
        ''ns'' [1] 18446744073709551615 = Panic
   \<and> Range_kv 1180591620717411303424
        \<lparr>ready = True, NumRetries = 3, db = [''ns'' \<mapsto> [([1], [10])]], pending = []\<rparr>
        ''ns'' [1] 18446744073709551615 \<noteq> Done (Inl ErrNotExist)"
  by (simp add: Range_kv_def IsReady_def View_def Range_tx_def Bucket_def Seek_def Cursor_def
        at_idx_def makeslice_def maxAlloc_def)

text \<open>
  C8, amended: on a ready engine with the namespace existing, and for a \<open>count\<close> whose
  result slice the runtime can allocate, Range returns exactly \<open>count\<close> values, those
  of the \<open>count\<close> consecutive entries from the smallest key not below the start key,
  when an entry exists at or after the start key and at least \<open>count\<close> of them do; it
  fails with NotExist when no entry is at or after the start key, whatever \<open>count\<close>
  is, and when fewer than \<open>count\<close> are. The theorem also gives the other counts: there
  the allocation made before the read does not return.
\<close>

theorem Range_consecutive:
  assumes "IsReady b" and "db b ns = Some bkt" and "wf_bucket bkt"
  shows "Range_kv mem b ns key count =
           (if \<not> makeslice mem count then Panic
            else if filter (\<lambda>e. key \<le> fst e) bkt \<noteq> []
                    \<and> unat count \<le> length (filter (\<lambda>e. key \<le> fst e) bkt)
            then Done (Inr (map snd (take (unat count) (filter (\<lambda>e. key \<le> fst e) bkt))))
            else Done (Inl ErrNotExist))"
proof -
  from assms(3) have srt: "sorted_wrt (\<lambda>a b. fst a < fst b) bkt"
    by (simp add: wf_bucket_def sorted_wrt_map)
  have "dropWhile (\<lambda>e. fst e < key) bkt = filter (\<lambda>e. \<not> fst e < key) bkt"
    by (rule sorted_dropWhile_filter [OF srt]) auto
  then have d: "dropWhile (\<lambda>e. fst e < key) bkt = filter (\<lambda>e. key \<le> fst e) bkt"
    by (simp add: not_less)
  from assms(1) Range_tx_eq [where t = "db b", OF assms(2), of key count] show ?thesis
    unfolding d by (simp add: Range_kv_def View_def)
qed

theorem Range_consecutive_witness:
  "IsReady \<lparr>ready = True, NumRetries = 3,
            db = [''ns'' \<mapsto> [([1], [10]), ([2], [20]), ([3], [30]), ([4], [40])]],
            pending = []\<rparr>
   \<and> wf_bucket [([1], [10]), ([2], [20]), ([3], [30]), ([4], [40])]
   \<and> makeslice 4096 2
   \<and> Range_kv 4096 \<lparr>ready = True, NumRetries = 3,
            db = [''ns'' \<mapsto> [([1], [10]), ([2], [20]), ([3], [30]), ([4], [40])]],
            pending = []\<rparr> ''ns'' [2] 2 = Done (Inr [[20], [30]])
   \<and> Range_kv 4096 \<lparr>ready = True, NumRetries = 3,
            db = [''ns'' \<mapsto> [([1], [10]), ([2], [20]), ([3], [30]), ([4], [40])]],
            pending = []\<rparr> ''ns'' [2] 4 = Done (Inl ErrNotExist)
   \<and> Range_kv 4096 \<lparr>ready = True, NumRetries = 3,
            db = [''ns'' \<mapsto> [([1], [10]), ([2], [20]), ([3], [30]), ([4], [40])]],
            pending = []\<rparr> ''ns'' [2] 1000 = Panic"
proof -
  let ?bkt = "[([1], [10]), ([2], [20]), ([3], [30]), ([4], [40])] :: bucket"
  let ?b = "\<lparr>ready = True, NumRetries = 3, db = [''ns'' \<mapsto> ?bkt], pending = []\<rparr>"
  have r: "IsReady ?b" by (simp add: IsReady_def)
  have d: "db ?b ''ns'' = Some ?bkt" by simp
  have wf: "wf_bucket ?bkt" by (simp add: wf_bucket_def MaxKeySize_def MaxValueSize_def)
  have m: "makeslice 4096 2" by (simp add: makeslice_def maxAlloc_def)
  have "Range_kv 4096 ?b ''ns'' [2] 2 = Done (Inr [[20], [30]])"
    using Range_consecutive [OF r d wf, of 4096 "[2]" 2] by (simp add: makeslice_def maxAlloc_def)
  moreover have "Range_kv 4096 ?b ''ns'' [2] 4 = Done (Inl ErrNotExist)"
    using Range_consecutive [OF r d wf, of 4096 "[2]" 4] by (simp add: makeslice_def maxAlloc_def)
  moreover have "Range_kv 4096 ?b ''ns'' [2] 1000 = Panic"
    using Range_consecutive [OF r d wf, of 4096 "[2]" 1000] by (simp add: makeslice_def maxAlloc_def)
  ultimately show ?thesis using r wf m by simp
qed

section \<open>Seeking where no boundary is\<close>

text \<open>
  C9: on an existing index namespace, SeekNext with no boundary at or after the key, and
  SeekPrev with no boundary before the position sought, return the empty byte slice
  without an error; a stored boundary whose value is empty gives the same result, so
  the caller cannot tell the two apart.
\<close>

theorem Seek_no_boundary:
  assumes "IsReady b" and "db b name = Some bkt" and "sk = Uint64ToBytesBigEndian key"
  shows "((\<forall>e \<in> set bkt. fst e < sk) \<longrightarrow> SeekNext b name key = Inr [])
       \<and> ((\<forall>e \<in> set bkt. sk \<le> fst e) \<longrightarrow> SeekPrev b name key = Inr [])
       \<and> (wf_bucket bkt \<and> (sk, []) \<in> set bkt \<longrightarrow> SeekNext b name key = Inr [])
       \<and> (\<forall>k. wf_bucket bkt \<and> (k, []) \<in> set bkt \<and> k < sk
              \<and> (\<forall>e \<in> set bkt. fst e < sk \<longrightarrow> fst e \<le> k) \<longrightarrow>
            SeekPrev b name key = Inr [])"
proof (intro conjI allI impI)
  assume "\<forall>e \<in> set bkt. fst e < sk"
  then have "find (\<lambda>e. sk \<le> fst e) bkt = None" by (rule find_none_below)
  with assms show "SeekNext b name key = Inr []"
    by (simp add: SeekNext_def View_def SeekNext_tx_def Bucket_def Seek_Cursor value_of_def)
next
  assume "\<forall>e \<in> set bkt. sk \<le> fst e"
  then have "takeWhile (\<lambda>e. fst e < sk) bkt = []" by (rule takeWhile_all_at_or_after)
  with assms show "SeekPrev b name key = Inr []"
    by (simp add: SeekPrev_def View_def SeekPrev_tx_def Bucket_def Seek_Cursor Prev_def
          value_of_def)
next
  assume a: "wf_bucket bkt \<and> (sk, []) \<in> set bkt"
  then have srt: "sorted_wrt (<) (map fst bkt)" by (simp add: wf_bucket_def)
  from a have "find (\<lambda>e. sk \<le> fst e) bkt = Some (sk, [])"
    by (intro find_least [OF srt, where P = "\<lambda>x. sk \<le> x"]) auto
  with assms show "SeekNext b name key = Inr []"
    by (simp add: SeekNext_def View_def SeekNext_tx_def Bucket_def Seek_Cursor value_of_def)
next
  fix k
  assume a: "wf_bucket bkt \<and> (k, []) \<in> set bkt \<and> k < sk
              \<and> (\<forall>e \<in> set bkt. fst e < sk \<longrightarrow> fst e \<le> k)"
  then have srt: "sorted_wrt (<) (map fst bkt)" by (simp add: wf_bucket_def)
  from a have "0 < length (takeWhile (\<lambda>e. fst e < sk) bkt)
       \<and> at_idx bkt (length (takeWhile (\<lambda>e. fst e < sk) bkt) - 1) = Some (k, [])"
    by (intro prev_before_seek [OF srt]) auto
  with assms show "SeekPrev b name key = Inr []"
    by (simp add: SeekPrev_def View_def SeekPrev_tx_def Bucket_def Seek_Cursor Prev_def
          value_of_def)
qed

theorem Seek_no_boundary_witness:
  "IsReady \<lparr>ready = True, NumRetries = 3,
            db = [''idx'' \<mapsto> [([0, 0, 0, 0, 0, 0, 0, 99], [5])]], pending = []\<rparr>
   \<and> SeekNext \<lparr>ready = True, NumRetries = 3,
            db = [''idx'' \<mapsto> [([0, 0, 0, 0, 0, 0, 0, 99], [5])]], pending = []\<rparr> ''idx'' 100
       = Inr []
   \<and> SeekPrev \<lparr>ready = True, NumRetries = 3,
            db = [''idx'' \<mapsto> [([0, 0, 0, 0, 0, 0, 0, 99], [5])]], pending = []\<rparr> ''idx'' 50
       = Inr []
   \<and> IsReady \<lparr>ready = True, NumRetries = 3,
            db = [''idx'' \<mapsto> [([0, 0, 0, 0, 0, 0, 0, 100], [])]], pending = []\<rparr>
   \<and> SeekNext \<lparr>ready = True, NumRetries = 3,
            db = [''idx'' \<mapsto> [([0, 0, 0, 0, 0, 0, 0, 100], [])]], pending = []\<rparr> ''idx'' 100
       = Inr []"
proof -
  let ?bkt = "[([0, 0, 0, 0, 0, 0, 0, 99], [5])] :: bucket"
  let ?b = "\<lparr>ready = True, NumRetries = 3, db = [''idx'' \<mapsto> ?bkt], pending = []\<rparr>"
  let ?bkt' = "[([0, 0, 0, 0, 0, 0, 0, 100], [])] :: bucket"
  let ?b' = "\<lparr>ready = True, NumRetries = 3, db = [''idx'' \<mapsto> ?bkt'], pending = []\<rparr>"
  have r: "IsReady ?b" by (simp add: IsReady_def)
  have d: "db ?b ''idx'' = Some ?bkt" by simp
  have r': "IsReady ?b'" by (simp add: IsReady_def)
  have d': "db ?b' ''idx'' = Some ?bkt'" by simp
  have e100: "[0, 0, 0, 0, 0, 0, 0, 100] = Uint64ToBytesBigEndian 100"
    by (simp add: Uint64ToBytesBigEndian_def)
  have e50: "[0, 0, 0, 0, 0, 0, 0, 50] = Uint64ToBytesBigEndian 50"
    by (simp add: Uint64ToBytesBigEndian_def)
  have "SeekNext ?b ''idx'' 100 = Inr []"
    using Seek_no_boundary [OF r d e100] by simp
  moreover have "SeekPrev ?b ''idx'' 50 = Inr []"
    using Seek_no_boundary [OF r d e50] by simp
  moreover have "wf_bucket ?bkt'" by (simp add: wf_bucket_def MaxKeySize_def MaxValueSize_def)
  then have "SeekNext ?b' ''idx'' 100 = Inr []"
    using Seek_no_boundary [OF r' d' e100] by simp
  ultimately show ?thesis using r r' by simp
qed

section \<open>The anchor of key 0\<close>

text \<open>
  C10: the anchor \<open>key - 1\<close> is computed on unsigned 64-bit integers, so for key 0 it
  is \<open>2 ^ 64 - 1\<close>, encoded as eight bytes \<open>255\<close>. Insert with key 0 is not rejected: it
  returns without an error and the bucket then has a boundary at that key. Remove with
  key 0 looks for the boundary at that key: afterwards none is stored there, and
  the bucket is unchanged when none was.
\<close>

theorem anchor_wraps_at_zero:
  assumes "IsReady b" and "NumRetries b \<noteq> 0" and "db b name = Some bkt" and "wf_bucket bkt"
    and "length val \<le> MaxValueSize"
  shows "unat ((0 :: 64 word) - 1) = 2 ^ 64 - 1
       \<and> Uint64ToBytesBigEndian (0 - 1) = [255, 255, 255, 255, 255, 255, 255, 255]
       \<and> (\<exists>bkt'. commits b (Insert b name 0 val) ((db b)(name \<mapsto> bkt'))
              \<and> [255, 255, 255, 255, 255, 255, 255, 255] \<in> fst ` set bkt')
       \<and> (\<exists>bkt'. commits b (Remove b name 0) ((db b)(name \<mapsto> bkt'))
              \<and> [255, 255, 255, 255, 255, 255, 255, 255] \<notin> fst ` set bkt'
              \<and> ([255, 255, 255, 255, 255, 255, 255, 255] \<notin> fst ` set bkt \<longrightarrow> bkt' = bkt))"
proof -
  let ?ak = "[255, 255, 255, 255, 255, 255, 255, 255] :: bytes"
  have w1: "(0 :: 64 word) - 1 = 18446744073709551615" by simp
  have w2: "unat (18446744073709551615 :: 64 word) = 2 ^ 64 - 1" by simp
  have w: "unat ((0 :: 64 word) - 1) = 2 ^ 64 - 1" by (simp only: w1 w2)
  have "Insert_tx name 0 val (db b) = Inr ((db b)(name \<mapsto> inserted bkt ?ak val))"
    using Insert_tx_eq [where t = "db b" and key = 0, OF assms(3,4,5)] by (simp only: anchor_of_zero)
  from run_retries_commits [where fn = "Insert_tx name 0 val" and b = b, OF this assms(2)] assms(1)
  have ci: "commits b (Insert b name 0 val) ((db b)(name \<mapsto> inserted bkt ?ak val))"
    by (simp add: Insert_def)
  have "Remove_tx name 0 (db b) = Inr ((db b)(name \<mapsto> removed bkt ?ak))"
    using Remove_tx_eq [where t = "db b" and key = 0, OF assms(3,4)] by (simp only: anchor_of_zero)
  from run_retries_commits [where fn = "Remove_tx name 0" and b = b, OF this assms(2)] assms(1)
  have cr: "commits b (Remove b name 0) ((db b)(name \<mapsto> removed bkt ?ak))"
    by (simp add: Remove_def)
  have i: "?ak \<in> fst ` set (inserted bkt ?ak val)" by (rule anchor_in_inserted [OF assms(4)])
  have r: "?ak \<notin> fst ` set (removed bkt ?ak)" by (rule anchor_not_in_removed [OF assms(4)])
  have r': "?ak \<notin> fst ` set bkt \<longrightarrow> removed bkt ?ak = bkt"
    using removed_cases(3) [OF assms(4)] by blast
  from w anchor_of_zero ci i cr r r' show ?thesis by blast
qed

theorem anchor_wraps_at_zero_witness:
  "IsReady \<lparr>ready = True, NumRetries = 3,
            db = [''idx'' \<mapsto> [([0, 0, 0, 0, 0, 0, 0, 99], [5])]], pending = []\<rparr>
   \<and> wf_bucket [([0, 0, 0, 0, 0, 0, 0, 99], [5])]
   \<and> fst (Insert \<lparr>ready = True, NumRetries = 3,
            db = [''idx'' \<mapsto> [([0, 0, 0, 0, 0, 0, 0, 99], [5])]], pending = []\<rparr> ''idx'' 0 [7])
       = Return None
   \<and> (\<exists>bkt'. db (snd (Insert \<lparr>ready = True, NumRetries = 3,
            db = [''idx'' \<mapsto> [([0, 0, 0, 0, 0, 0, 0, 99], [5])]], pending = []\<rparr> ''idx'' 0 [7]))
          ''idx'' = Some bkt'
        \<and> [255, 255, 255, 255, 255, 255, 255, 255] \<in> fst ` set bkt')"
proof -
  let ?bkt = "[([0, 0, 0, 0, 0, 0, 0, 99], [5])] :: bucket"
  let ?b = "\<lparr>ready = True, NumRetries = 3, db = [''idx'' \<mapsto> ?bkt], pending = []\<rparr>"
  have r: "IsReady ?b" by (simp add: IsReady_def)
  have n: "NumRetries ?b \<noteq> 0" by simp
  have d: "db ?b ''idx'' = Some ?bkt" by simp
  have wf: "wf_bucket ?bkt" by (simp add: wf_bucket_def MaxKeySize_def MaxValueSize_def)
  have v: "length [7 :: 8 word] \<le> MaxValueSize" by (simp add: MaxValueSize_def)
  from anchor_wraps_at_zero [OF r n d wf v]
  obtain bkt' where c: "commits ?b (Insert ?b ''idx'' 0 [7]) ((db ?b)(''idx'' \<mapsto> bkt'))"
    and m: "[255, 255, 255, 255, 255, 255, 255, 255] \<in> fst ` set bkt'"
    by blast
  from c have "Insert ?b ''idx'' 0 [7] = (Return None, ?b\<lparr>db := (db ?b)(''idx'' \<mapsto> bkt')\<rparr>)"
    by (simp add: commits_def)
  with m r wf show ?thesis by auto
qed

end
